theory Spec2Isabelle
  imports
    Complex_Main
    "HOL-Library.Word"
    "HOL-Library.Signed_Division"
    "HOL-Library.Multiset"
    "HOL-Library.AList"
begin

unbundle bit_operations_syntax

section \<open>Machine integers and doubles\<close>

text \<open>
  The program is \<^verbatim>\<open>statistics_calculator.c\<close>. A C \<^verbatim>\<open>int\<close> is a 32-bit word read
  in two's complement (\<open>sint\<close>); arithmetic on it wraps around modulo \<open>2 ^ 32\<close>, which is
  what the compiled program does where ISO C leaves signed overflow undefined.

  A \<^verbatim>\<open>double\<close> is an IEEE 754 binary64 number, modelled by the real number it
  holds; the operations round to the nearest double, ties to the even significand (the
  default rounding mode), each operation once (SSE2 arithmetic, as on x86-64). The
  exponent range is not modelled: the doubles of this program lie between
  \<open>2 ^ - 31\<close> and \<open>2 ^ 63\<close> in absolute value, or are 0.
\<close>

type_synonym cint = "32 word"

text \<open>
  Modelled from the spec: the width of \<^verbatim>\<open>long\<close> is fixed by the platform's data model and
  not by the source. The spec (4.1) asks for an accumulator "at least as wide as a 64-bit
  signed integer"; this is the LP64 data model (Linux, macOS, the BSDs), where
  \<^verbatim>\<open>long\<close> has 64 bits.
\<close>

type_synonym clong = "64 word"

definition INT_MIN :: cint where
  "INT_MIN = - (2 ^ 31)"

definition INT_MAX :: cint where
  "INT_MAX = 2 ^ 31 - 1"

text \<open>Signed comparison, division and remainder of C (\<^verbatim>\<open>/\<close> truncates towards zero).\<close>

definition c_div :: "cint \<Rightarrow> cint \<Rightarrow> cint" where
  "c_div a b = word_of_int (sint a sdiv sint b)"

definition c_mod :: "cint \<Rightarrow> cint \<Rightarrow> cint" where
  "c_mod a b = word_of_int (sint a smod sint b)"

text \<open>The number of binary digits of a natural number.\<close>

fun bit_length :: "nat \<Rightarrow> nat" where
  "bit_length n = (if n = 0 then 0 else Suc (bit_length (n div 2)))"

text \<open>The integer nearest to \<open>p / q\<close>, for \<open>0 < q\<close>; of two nearest ones, the even one.\<close>

definition round_half_even :: "int \<Rightarrow> int \<Rightarrow> int" where
  "round_half_even p q =
     (let f = p div q; r = p mod q
      in if 2 * r < q then f else if q < 2 * r then f + 1 else if even f then f else f + 1)"

text \<open>
  \<^verbatim>\<open>(double)k\<close> for a \<^verbatim>\<open>long\<close> \<open>k\<close>: an integer of at most 53 binary digits is a
  double; a longer one is rounded to a multiple of the power of two that leaves 53
  digits. The result is an integer.
\<close>

definition double_of_long :: "int \<Rightarrow> int" where
  "double_of_long k =
     (let u = int (bit_length (nat \<bar>k\<bar>)) - 53
      in if u \<le> 0 then k else round_half_even k (2 ^ nat u) * 2 ^ nat u)"

text \<open>
  The double nearest to the quotient \<open>p / q\<close> of two integers, \<open>0 < q\<close>: with
  \<open>2 ^ e \<le> \<bar>p / q\<bar> < 2 ^ (e + 1)\<close>, the quotient is rounded to a multiple of
  \<open>2 ^ (e - 52)\<close>. This is the division \<^verbatim>\<open>x / y\<close> of two doubles that hold the
  integers \<open>p\<close> and \<open>q\<close>.
\<close>

definition double_of_quotient :: "int \<Rightarrow> int \<Rightarrow> real" where
  "double_of_quotient p q =
     (if p = 0 then 0
      else
        let d = int (bit_length (nat \<bar>p\<bar>)) - int (bit_length (nat q));
            e = (if q * 2 ^ nat d \<le> \<bar>p\<bar> * 2 ^ nat (- d) then d else d - 1);
            u = e - 52
        in if 0 \<le> u then real_of_int (round_half_even p (q * 2 ^ nat u) * 2 ^ nat u)
           else real_of_int (round_half_even (p * 2 ^ nat (- u)) q) / 2 ^ nat (- u))"

text \<open>
  An \<^verbatim>\<open>int\<close> used as a loop bound or as a subscript: the number of iterations of
  \<^verbatim>\<open>for (int i = 0; i < size; i++)\<close> (none for \<open>sz \<le> 0\<close>), and the cell that
  \<^verbatim>\<open>p[i]\<close> names.
\<close>

definition count_of :: "cint \<Rightarrow> nat" where
  "count_of sz = nat (sint sz)"

section \<open>The state: store, allocator, output\<close>

text \<open>
  Arrays live in a store of allocated blocks, an association list from addresses to the
  block's cells; a pointer is the address of a block, and \<^verbatim>\<open>p[i]\<close> is cell \<open>i\<close> of
  block \<open>p\<close>. \<^verbatim>\<open>NULL\<close> is address 0, which is never allocated.

  Whether a call of \<^verbatim>\<open>malloc\<close> succeeds is decided outside the program: the state
  carries the outcomes of the calls to come (\<open>allocs\<close>, \<open>False\<close> for a call that will
  return \<^verbatim>\<open>NULL\<close>; past the end of the list every call succeeds). What the program
  writes to the standard output and to the standard error is appended to \<open>stdout\<close> and
  \<open>stderr\<close>.
\<close>

type_synonym addr = nat

record state =
  cells :: "(addr \<times> cint list) list"
  allocs :: "bool list"
  stdout :: string
  stderr :: string

definition NULL :: addr where
  "NULL = 0"

definition block :: "state \<Rightarrow> addr \<Rightarrow> cint list" where
  "block s p = (case map_of (cells s) p of None \<Rightarrow> [] | Some cs \<Rightarrow> cs)"

text \<open>\<^verbatim>\<open>p[i]\<close> as an rvalue.\<close>

definition rd :: "state \<Rightarrow> addr \<Rightarrow> nat \<Rightarrow> cint" where
  "rd s p i = block s p ! i"

text \<open>\<^verbatim>\<open>p[i] = v\<close>.\<close>

definition wr :: "state \<Rightarrow> addr \<Rightarrow> nat \<Rightarrow> cint \<Rightarrow> state" where
  "wr s p i v = s\<lparr>cells := AList.update p ((block s p)[i := v]) (cells s)\<rparr>"

definition fresh :: "state \<Rightarrow> addr" where
  "fresh s = Suc (fold max (map fst (cells s)) 0)"

text \<open>
  \<^verbatim>\<open>malloc(n * sizeof(int))\<close> returns a new block of \<open>n\<close> cells at an address not in
  use, or \<^verbatim>\<open>NULL\<close> and the store as it was. The cells of a new block are indeterminate
  in C; here they hold 0, and the program writes every cell of a new block before it
  reads it.
\<close>

definition malloc :: "state \<Rightarrow> nat \<Rightarrow> addr \<times> state" where
  "malloc s n =
     (case allocs s of
        False # rest \<Rightarrow> (NULL, s\<lparr>allocs := rest\<rparr>)
      | _ \<Rightarrow> (fresh s, s\<lparr>cells := (fresh s, replicate n 0) # cells s, allocs := tl (allocs s)\<rparr>))"

text \<open>\<^verbatim>\<open>free(p)\<close>.\<close>

definition free :: "state \<Rightarrow> addr \<Rightarrow> state" where
  "free s p = s\<lparr>cells := AList.delete p (cells s)\<rparr>"

text \<open>\<^verbatim>\<open>memcpy(dst, src, n * sizeof(int))\<close>: the first \<open>n\<close> cells of \<open>src\<close> over those of \<open>dst\<close>.\<close>

definition memcpy :: "state \<Rightarrow> addr \<Rightarrow> addr \<Rightarrow> nat \<Rightarrow> state" where
  "memcpy s dst src n =
     s\<lparr>cells := AList.update dst (take n (block s src) @ drop n (block s dst)) (cells s)\<rparr>"

text \<open>\<^verbatim>\<open>printf\<close> and \<^verbatim>\<open>fprintf(stderr, ...)\<close> of a text already formatted.\<close>

definition printf :: "state \<Rightarrow> string \<Rightarrow> state" where
  "printf s txt = s\<lparr>stdout := stdout s @ txt\<rparr>"

definition fprintf_stderr :: "state \<Rightarrow> string \<Rightarrow> state" where
  "fprintf_stderr s txt = s\<lparr>stderr := stderr s @ txt\<rparr>"

text \<open>
  A sample is what the caller passes as \<^verbatim>\<open>(arr, size)\<close>: the first \<open>sz\<close> cells of the
  block at \<open>arr\<close>. The call is well-formed when \<open>sz\<close> is not negative and the block
  has that many cells (for \<open>sz = 0\<close> any pointer will do, \<^verbatim>\<open>NULL\<close> included).
\<close>

definition sample :: "state \<Rightarrow> addr \<Rightarrow> cint \<Rightarrow> cint list" where
  "sample s arr sz = take (count_of sz) (block s arr)"

definition valid_sample :: "state \<Rightarrow> addr \<Rightarrow> cint \<Rightarrow> bool" where
  "valid_sample s arr sz \<longleftrightarrow> 0 \<le> sint sz \<and> count_of sz \<le> length (block s arr)"

text \<open>No call of \<^verbatim>\<open>malloc\<close> to come fails.\<close>

definition no_oom :: "state \<Rightarrow> bool" where
  "no_oom s \<longleftrightarrow> False \<notin> set (allocs s)"

text \<open>The next call of \<^verbatim>\<open>malloc\<close> fails, given the outcomes to come.\<close>

definition fails :: "bool list \<Rightarrow> bool" where
  "fails outcomes \<longleftrightarrow> outcomes \<noteq> [] \<and> \<not> hd outcomes"

section \<open>Mean\<close>

text \<open>
  \<^verbatim>\<open>long sum = 0; for (int i = 0; i < size; i++) sum += arr[i];\<close>
  The \<^verbatim>\<open>int\<close> read from the array is converted to \<^verbatim>\<open>long\<close> (sign extension, \<open>scast\<close>)
  and added in 64-bit arithmetic. \<open>mean_loop s arr k\<close> is \<^verbatim>\<open>sum\<close> after \<open>k\<close> iterations.
\<close>

definition mean_loop :: "state \<Rightarrow> addr \<Rightarrow> nat \<Rightarrow> clong" where
  "mean_loop s arr k = fold (\<lambda>i sum. sum + scast (rd s arr i)) [0 ..< k] 0"

text \<open>
  \<^verbatim>\<open>if (size == 0) return 0.0; ... return (double)sum / size;\<close>
  The sum is converted to double, which rounds it when it has more than 53 binary
  digits; \<^verbatim>\<open>size\<close> is converted to double (exactly, an \<^verbatim>\<open>int\<close> has 32 bits), and the
  division rounds the quotient of the two.
\<close>

definition calculate_mean :: "state \<Rightarrow> addr \<Rightarrow> cint \<Rightarrow> real" where
  "calculate_mean s arr sz =
     (if sz = 0 then 0
      else double_of_quotient (double_of_long (sint (mean_loop s arr (count_of sz)))) (sint sz))"

section \<open>Sorting\<close>

text \<open>\<^verbatim>\<open>return (*(int*)a - *(int*)b);\<close>\<close>

definition compare :: "cint \<Rightarrow> cint \<Rightarrow> cint" where
  "compare a b = a - b"

text \<open>
  Modelled from the spec: \<^verbatim>\<open>qsort\<close> is the C library's, the repository has no code for
  it. The spec (4.2, 4.3) asks for "a sorted ascending copy"; the source gets it from
  \<^verbatim>\<open>qsort(sorted_arr, size, sizeof(int), compare)\<close>, and ISO C only says that the
  array is sorted "according to a comparison function", an element going first when the
  function returns a value less than zero. So the model is a sort that knows the order
  through the comparison function alone: insertion of each element before the first one
  it does not compare greater than. Where the comparison function is a total order on
  the elements, every sorting algorithm returns the same array (lemma
  \<open>qsort_list_unique\<close>).
\<close>

fun qsort_insert :: "(cint \<Rightarrow> cint \<Rightarrow> cint) \<Rightarrow> cint \<Rightarrow> cint list \<Rightarrow> cint list" where
  "qsort_insert cmp x [] = [x]"
| "qsort_insert cmp x (y # ys) =
     (if sint (cmp x y) \<le> 0 then x # y # ys else y # qsort_insert cmp x ys)"

definition qsort_list :: "(cint \<Rightarrow> cint \<Rightarrow> cint) \<Rightarrow> cint list \<Rightarrow> cint list" where
  "qsort_list cmp xs = foldr (qsort_insert cmp) xs []"

text \<open>\<^verbatim>\<open>qsort(base, n, sizeof(int), cmp)\<close> sorts the first \<open>n\<close> cells of the block in place.\<close>

definition qsort :: "state \<Rightarrow> addr \<Rightarrow> nat \<Rightarrow> (cint \<Rightarrow> cint \<Rightarrow> cint) \<Rightarrow> state" where
  "qsort s base n cmp =
     s\<lparr>cells := AList.update base
        (qsort_list cmp (take n (block s base)) @ drop n (block s base)) (cells s)\<rparr>"

section \<open>Median\<close>

text \<open>
  \<^verbatim>\<open>(sorted_arr[size/2 - 1] + sorted_arr[size/2]) / 2.0\<close> adds two \<^verbatim>\<open>int\<close>s in
  \<^verbatim>\<open>int\<close> arithmetic and converts the sum to double; \<^verbatim>\<open>median = sorted_arr[size/2]\<close>
  converts an \<^verbatim>\<open>int\<close>. Both conversions are exact (32 bits), and so is the division of
  an integer of 32 bits by 2: the real numbers of the model are the doubles of the code.
\<close>

definition calculate_median :: "state \<Rightarrow> addr \<Rightarrow> cint \<Rightarrow> real \<times> state" where
  "calculate_median s arr sz =
     (if sz = 0 then (0, s)
      else case malloc s (count_of sz) of (sorted_arr, s1) \<Rightarrow>
        if sorted_arr = NULL
        then (0, fprintf_stderr s1 (''Memory allocation failed'' @ [CHR 0x0A]))
        else
          let s2 = memcpy s1 sorted_arr arr (count_of sz);
              s3 = qsort s2 sorted_arr (count_of sz) compare;
              median =
                (if c_mod sz 2 = 0
                 then real_of_int (sint (rd s3 sorted_arr (count_of (c_div sz 2 - 1))
                                         + rd s3 sorted_arr (count_of (c_div sz 2)))) / 2
                 else real_of_int (sint (rd s3 sorted_arr (count_of (c_div sz 2)))));
              s4 = free s3 sorted_arr
          in (median, s4))"

section \<open>Mode\<close>

record ModeResult =
  modes :: addr
  count :: cint
  frequency :: cint

text \<open>
  The body of the first loop, run for \<open>i = 1, ..., size - 1\<close> on
  \<open>(max_frequency, current_frequency, current_value)\<close>.
\<close>

definition mode_pass1 :: "state \<Rightarrow> addr \<Rightarrow> nat \<Rightarrow> cint \<times> cint \<times> cint \<Rightarrow> cint \<times> cint \<times> cint" where
  "mode_pass1 s sorted_arr i = (\<lambda>(max_frequency, current_frequency, current_value).
     if rd s sorted_arr i = current_value
     then (max_frequency, current_frequency + 1, current_value)
     else ((if max_frequency <s current_frequency then current_frequency else max_frequency),
           1, rd s sorted_arr i))"

text \<open>
  The body of the second loop, on the state and
  \<open>(mode_count, current_frequency, current_value)\<close>;
  \<^verbatim>\<open>temp_modes[mode_count++] = current_value\<close> writes to the store.
\<close>

definition mode_pass2 ::
  "addr \<Rightarrow> addr \<Rightarrow> cint \<Rightarrow> nat \<Rightarrow> state \<times> cint \<times> cint \<times> cint \<Rightarrow> state \<times> cint \<times> cint \<times> cint" where
  "mode_pass2 sorted_arr temp_modes max_frequency i =
     (\<lambda>(s, mode_count, current_frequency, current_value).
        if rd s sorted_arr i = current_value
        then (s, mode_count, current_frequency + 1, current_value)
        else
          let (s', mode_count') =
                (if current_frequency = max_frequency
                 then (wr s temp_modes (count_of mode_count) current_value, mode_count + 1)
                 else (s, mode_count))
          in (s', mode_count', 1, rd s' sorted_arr i))"

definition calculate_mode :: "state \<Rightarrow> addr \<Rightarrow> cint \<Rightarrow> ModeResult \<times> state" where
  "calculate_mode s arr sz =
     (let result = \<lparr>modes = NULL, count = 0, frequency = 0\<rparr> in
      if sz = 0 then (result, s)
      else case malloc s (count_of sz) of (sorted_arr, s1) \<Rightarrow>
        if sorted_arr = NULL
        then (result,
              fprintf_stderr s1 (''Memory allocation failed in calculate_mode'' @ [CHR 0x0A]))
        else
          let s2 = memcpy s1 sorted_arr arr (count_of sz);
              s3 = qsort s2 sorted_arr (count_of sz) compare;
              (max_frequency, current_frequency, current_value) =
                 fold (mode_pass1 s3 sorted_arr) [1 ..< count_of sz] (1, 1, rd s3 sorted_arr 0);
              max_frequency =
                 (if max_frequency <s current_frequency then current_frequency
                  else max_frequency)
          in case malloc s3 (count_of sz) of (temp_modes, s4) \<Rightarrow>
            if temp_modes = NULL then (result, free s4 sorted_arr)
            else
              let (s5, mode_count, current_frequency, current_value) =
                     fold (mode_pass2 sorted_arr temp_modes max_frequency) [1 ..< count_of sz]
                       (s4, 0, 1, rd s4 sorted_arr 0);
                  (s6, mode_count) =
                     (if current_frequency = max_frequency
                      then (wr s5 temp_modes (count_of mode_count) current_value, mode_count + 1)
                      else (s5, mode_count))
              in case malloc s6 (count_of mode_count) of (p, s7) \<Rightarrow>
                let (result, s8) =
                      (if p \<noteq> NULL
                       then (\<lparr>modes = p, count = mode_count, frequency = max_frequency\<rparr>,
                             memcpy s7 p temp_modes (count_of mode_count))
                       else (result\<lparr>modes := p\<rparr>, s7))
                in (result, free (free s8 sorted_arr) temp_modes))"

text \<open>The values of a result: the first \<open>count\<close> cells of the block at \<open>modes\<close>.\<close>

definition mode_values :: "ModeResult \<times> state \<Rightarrow> cint list" where
  "mode_values = (\<lambda>(r, s). take (count_of (count r)) (block s (modes r)))"

definition free_mode_result :: "ModeResult \<times> state \<Rightarrow> ModeResult \<times> state" where
  "free_mode_result = (\<lambda>(result, s).
     let (result, s) =
           (if modes result \<noteq> NULL then (result\<lparr>modes := NULL\<rparr>, free s (modes result))
            else (result, s))
     in (result\<lparr>count := 0, frequency := 0\<rparr>, s))"

section \<open>Report\<close>

text \<open>The conversion \<^verbatim>\<open>%d\<close> of \<^verbatim>\<open>printf\<close>: the decimal digits, after a minus sign if negative.\<close>

fun decimal :: "nat \<Rightarrow> string" where
  "decimal n =
     (if n < 10 then [''0123456789'' ! n]
      else decimal (n div 10) @ [''0123456789'' ! (n mod 10)])"

definition fmt_d :: "cint \<Rightarrow> string" where
  "fmt_d x = (if sint x < 0 then ''-'' @ decimal (nat (- sint x)) else decimal (nat (sint x)))"

text \<open>
  The body of the loops that print the cells \<open>0, ..., n - 1\<close> of an array:
  \<^verbatim>\<open>printf("%d", arr[i]); if (i < size - 1) printf(", ");\<close>
\<close>

definition print_cell :: "addr \<Rightarrow> cint \<Rightarrow> nat \<Rightarrow> state \<Rightarrow> state" where
  "print_cell arr sz i s =
     (let s = printf s (fmt_d (rd s arr i))
      in if int i < sint (sz - 1) then printf s '', '' else s)"

definition print_array :: "state \<Rightarrow> addr \<Rightarrow> cint \<Rightarrow> state" where
  "print_array s arr sz =
     (let s = printf s ''['';
          s = fold (print_cell arr sz) [0 ..< count_of sz] s
      in printf s '']'')"

text \<open>
  The conversion \<^verbatim>\<open>%.2f\<close> of \<^verbatim>\<open>printf\<close>, as the C library of an LP64 Linux does it: the
  decimal expansion of the exact value of the double, rounded to the nearest hundredth, a
  tie to the even one; a minus sign before a negative value, at least one digit before
  the point and two after it. \<open>hundredths x\<close> is the rounded number of hundredths of
  \<open>\<bar>x\<bar>\<close>.
\<close>

definition hundredths :: "real \<Rightarrow> int" where
  "hundredths x =
     (let y = \<bar>x\<bar> * 100; f = \<lfloor>y\<rfloor>
      in if y - of_int f < 1 / 2 then f
         else if 1 / 2 < y - of_int f then f + 1
         else if even f then f else f + 1)"

definition fmt_2f :: "real \<Rightarrow> string" where
  "fmt_2f x =
     (let h = nat (hundredths x)
      in (if x < 0 then ''-'' else []) @ decimal (h div 100) @ ''.''
         @ [''0123456789'' ! (h mod 100 div 10), ''0123456789'' ! (h mod 10)])"

definition print_statistics :: "state \<Rightarrow> addr \<Rightarrow> cint \<Rightarrow> state" where
  "print_statistics s arr sz =
     (let s = printf s ''Array: '';
          s = print_array s arr sz;
          s = printf s [CHR 0x0A]
      in if sz = 0
         then printf s (''Cannot calculate statistics for empty array.'' @ [CHR 0x0A])
         else
           let mean = calculate_mean s arr sz;
               s = printf s (''Mean: '' @ fmt_2f mean @ [CHR 0x0A]);
               (median, s) = calculate_median s arr sz;
               s = printf s (''Median: '' @ fmt_2f median @ [CHR 0x0A]);
               (mode_result, s) = calculate_mode s arr sz;
               s = printf s ''Mode: '';
               s = (if count mode_result = 1
                    then printf s (fmt_d (rd s (modes mode_result) 0) @ '' (frequency: ''
                                   @ fmt_d (frequency mode_result) @ '')'' @ [CHR 0x0A])
                    else
                      let s = printf s ''['';
                          s = fold (print_cell (modes mode_result) (count mode_result))
                                [0 ..< count_of (count mode_result)] s
                      in printf s (''] (frequency: '' @ fmt_d (frequency mode_result)
                                   @ '' each)'' @ [CHR 0x0A]));
               (mode_result, s) = free_mode_result (mode_result, s)
           in printf s [CHR 0x0A])"

text \<open>
  \<^verbatim>\<open>main\<close> prints a banner and the report of five arrays; the fifth is
  \<^verbatim>\<open>print_statistics(NULL, 0)\<close>. An array of \<^verbatim>\<open>main\<close> is a block of the store the
  calculators are called with.
\<close>

definition caller_state :: "addr \<Rightarrow> cint list \<Rightarrow> state" where
  "caller_state p xs = \<lparr>cells = [(p, xs)], allocs = [], stdout = [], stderr = []\<rparr>"

section \<open>What the loops compute\<close>

text \<open>
  The definitions of this section are not translations of source text: they name what
  the code above computes, for the statements of the theorems.
\<close>

text \<open>
  The difference of two elements fits in an \<^verbatim>\<open>int\<close>; \<open>compare\<close> reports the order of
  the two integers.
\<close>

definition difference_fits :: "cint \<Rightarrow> cint \<Rightarrow> bool" where
  "difference_fits a b \<longleftrightarrow> - (2 ^ 31) \<le> sint a - sint b \<and> sint a - sint b < 2 ^ 31"

definition differences_fit :: "cint list \<Rightarrow> bool" where
  "differences_fit xs \<longleftrightarrow> (\<forall>a\<in>set xs. \<forall>b\<in>set xs. difference_fits a b)"

definition compare_agrees :: "cint \<Rightarrow> cint \<Rightarrow> bool" where
  "compare_agrees a b \<longleftrightarrow>
     (sint (compare a b) < 0 \<longleftrightarrow> sint a < sint b) \<and>
     (sint (compare a b) = 0 \<longleftrightarrow> sint a = sint b) \<and>
     (0 < sint (compare a b) \<longleftrightarrow> sint b < sint a)"

text \<open>The median as \<open>calculate_median\<close> reads it from the sorted copy.\<close>

definition median_of_sorted :: "cint list \<Rightarrow> real" where
  "median_of_sorted srt =
     (let n = length srt
      in if even n then real_of_int (sint (srt ! (n div 2 - 1) + srt ! (n div 2))) / 2
         else real_of_int (sint (srt ! (n div 2))))"

text \<open>
  The maximal runs of equal adjacent values of a list, each with its length:
  \<open>runs_from v c xs\<close> are the runs of a list that goes on with \<open>xs\<close> after \<open>c\<close>
  cells of value \<open>v\<close>.
\<close>

fun runs_from :: "cint \<Rightarrow> nat \<Rightarrow> cint list \<Rightarrow> (cint \<times> nat) list" where
  "runs_from v c [] = [(v, c)]"
| "runs_from v c (x # xs) = (if x = v then runs_from v (c + 1) xs else (v, c) # runs_from x 1 xs)"

definition runs :: "cint list \<Rightarrow> (cint \<times> nat) list" where
  "runs srt = (case srt of [] \<Rightarrow> [] | x # xs \<Rightarrow> runs_from x 1 xs)"

text \<open>The longest run, and the values of the runs of a given length.\<close>

definition max_run :: "cint list \<Rightarrow> nat" where
  "max_run srt = fold max (map snd (runs srt)) 0"

definition modes_with :: "nat \<Rightarrow> (cint \<times> nat) list \<Rightarrow> cint list" where
  "modes_with f rs = map fst (filter (\<lambda>(v, c). c = f) rs)"

definition modes_of_sorted :: "cint list \<Rightarrow> cint list" where
  "modes_of_sorted srt = modes_with (max_run srt) (runs srt)"

text \<open>The cells of an array as \<open>print_array\<close> renders them between the brackets.\<close>

fun comma_separated :: "cint list \<Rightarrow> string" where
  "comma_separated [] = []"
| "comma_separated [x] = fmt_d x"
| "comma_separated (x # y # ys) = fmt_d x @ '', '' @ comma_separated (y # ys)"

text \<open>The sum of two elements fits in an \<^verbatim>\<open>int\<close>.\<close>

definition sum_fits :: "cint \<Rightarrow> cint \<Rightarrow> bool" where
  "sum_fits a b \<longleftrightarrow> - (2 ^ 31) \<le> sint a + sint b \<and> sint a + sint b < 2 ^ 31"

text \<open>
  An ascending-sorted copy of a sample: the same elements, each as often, in ascending
  order of the integers.
\<close>

definition ascending_copy :: "cint list \<Rightarrow> cint list \<Rightarrow> bool" where
  "ascending_copy ys xs \<longleftrightarrow> sorted (map sint ys) \<and> mset ys = mset xs"

text \<open>The largest multiplicity of a value of a sample; 0 for the empty sample.\<close>

definition max_multiplicity :: "cint list \<Rightarrow> nat" where
  "max_multiplicity xs = Max (insert 0 (count_list xs ` set xs))"

text \<open>
  The three allocations of \<open>calculate_mode\<close> succeed: the sorted copy, \<^verbatim>\<open>temp_modes\<close>
  and the array of the result.
\<close>

definition mode_allocations_succeed :: "bool list \<Rightarrow> bool" where
  "mode_allocations_succeed outcomes \<longleftrightarrow>
     \<not> fails outcomes \<and> \<not> fails (tl outcomes) \<and> \<not> fails (tl (tl outcomes))"

text \<open>
  The bodies of the two loops of \<open>calculate_mode\<close> as functions of the cell read,
  the second one on the cells of \<^verbatim>\<open>temp_modes\<close> instead of the state.
\<close>

definition count_run :: "cint \<Rightarrow> cint \<times> cint \<times> cint \<Rightarrow> cint \<times> cint \<times> cint" where
  "count_run x = (\<lambda>(max_frequency, current_frequency, current_value).
     if x = current_value then (max_frequency, current_frequency + 1, current_value)
     else ((if max_frequency <s current_frequency then current_frequency else max_frequency),
           1, x))"

definition collect_run ::
  "cint \<Rightarrow> cint \<Rightarrow> cint list \<times> cint \<times> cint \<times> cint \<Rightarrow> cint list \<times> cint \<times> cint \<times> cint" where
  "collect_run max_frequency x = (\<lambda>(buf, mode_count, current_frequency, current_value).
     if x = current_value then (buf, mode_count, current_frequency + 1, current_value)
     else if current_frequency = max_frequency
          then (buf[count_of mode_count := current_value], mode_count + 1, 1, x)
          else (buf, mode_count, 1, x))"

section \<open>Facts about the machine integers and the loops\<close>

declare bit_length.simps [simp del]

lemma sint_word_of_int_32:
  "- (2 ^ 31) \<le> k \<Longrightarrow> k < 2 ^ 31 \<Longrightarrow> sint (word_of_int k :: cint) = k"
  by (simp add: signed_of_int signed_take_bit_int_eq_self)

lemma sint_word_of_int_64:
  "- (2 ^ 63) \<le> k \<Longrightarrow> k < 2 ^ 63 \<Longrightarrow> sint (word_of_int k :: clong) = k"
  by (simp add: signed_of_int signed_take_bit_int_eq_self)

lemma sint_cint_bounds: "- (2 ^ 31) \<le> sint (x :: cint)" "sint (x :: cint) < 2 ^ 31"
  using sint_ge [of x] sint_lt [of x] by simp_all

lemma map_nth_upt_eq:
  "n \<le> length xs \<Longrightarrow> map (nth xs) [k ..< n] = drop k (take n xs)"
proof -
  assume n: "n \<le> length xs"
  have "take n xs = take n (map (nth xs) [0 ..< length xs])"
    by (simp add: map_nth)
  also have "\<dots> = map (nth xs) [0 ..< n]"
    using n by (simp add: take_map)
  finally have "drop k (take n xs) = map (nth xs) (drop k [0 ..< n])"
    by (simp add: drop_map)
  then show ?thesis by simp
qed

lemma fold_nth_upt:
  "n \<le> length xs \<Longrightarrow> fold (\<lambda>i. f (xs ! i)) [k ..< n] a = fold f (drop k (take n xs)) a"
  by (simp add: map_nth_upt_eq [symmetric] fold_map comp_def)

lemma fold_add_scast:
  "fold (\<lambda>x (sum :: clong). sum + scast (x :: cint)) xs a = a + word_of_int (\<Sum>x\<leftarrow>xs. sint x)"
proof (induction xs arbitrary: a)
  case Nil
  show ?case by simp
next
  case (Cons x xs)
  have "fold (\<lambda>x (sum :: clong). sum + scast (x :: cint)) (x # xs) a
        = (a + scast x) + word_of_int (\<Sum>x\<leftarrow>xs. sint x)"
    using Cons.IH [of "a + scast x"] by simp
  also have "\<dots> = a + (word_of_int (sint x) + word_of_int (\<Sum>x\<leftarrow>xs. sint x))"
    by (simp only: scast_eq add.assoc)
  also have "\<dots> = a + word_of_int (\<Sum>x\<leftarrow>(x # xs). sint x)"
    by simp
  finally show ?case .
qed

lemma sum_sint_bounds:
  "- (2 ^ 31 * int (length xs)) \<le> (\<Sum>x\<leftarrow>xs. sint (x :: cint)) \<and>
   (\<Sum>x\<leftarrow>xs. sint x) \<le> 2 ^ 31 * int (length xs)"
proof (induction xs)
  case Nil
  show ?case by simp
next
  case (Cons x xs)
  then show ?case
    using sint_cint_bounds [of x] by (simp add: algebra_simps)
qed

lemma count_of_less: "count_of sz < 2 ^ 31"
  using sint_cint_bounds(2) [of sz] by (simp add: count_of_def)

lemma count_of_eq_0_iff: "0 \<le> sint sz \<Longrightarrow> count_of sz = 0 \<longleftrightarrow> sz = 0"
  by (auto simp: count_of_def signed_eq_0_iff)

lemma int_count_of: "0 \<le> sint sz \<Longrightarrow> int (count_of sz) = sint sz"
  by (simp add: count_of_def)

lemma length_sample: "valid_sample s arr sz \<Longrightarrow> length (sample s arr sz) = count_of sz"
  by (simp add: valid_sample_def sample_def)

section \<open>The mean\<close>

lemma mean_loop_word:
  assumes "k \<le> length (block s arr)"
  shows "mean_loop s arr k = word_of_int (\<Sum>x\<leftarrow>take k (block s arr). sint x)"
  using assms
  by (simp add: mean_loop_def rd_def fold_add_scast
      fold_nth_upt [where f = "\<lambda>x sum. sum + scast x", of k "block s arr" 0])

lemma take_sample: "k \<le> count_of sz \<Longrightarrow> take k (sample s arr sz) = take k (block s arr)"
  by (simp add: sample_def min_def)

lemma mean_loop_exact:
  assumes "valid_sample s arr sz" and "k \<le> count_of sz"
  shows "sint (mean_loop s arr k) = (\<Sum>x\<leftarrow>take k (sample s arr sz). sint x)"
proof -
  let ?xs = "take k (block s arr)"
  have k: "k \<le> length (block s arr)"
    using assms by (simp add: valid_sample_def)
  then have len: "length ?xs = k" by simp
  have "k < 2 ^ 31"
    using assms(2) count_of_less [of sz] by simp
  then have "int k < 2 ^ 31" by (metis of_nat_less_numeral_power_cancel_iff)
  then have "(2::int) ^ 31 * int k \<le> 2 ^ 31 * 2 ^ 31"
    by (intro mult_left_mono) simp_all
  then have "- (2 ^ 63) \<le> (\<Sum>x\<leftarrow>?xs. sint x) \<and> (\<Sum>x\<leftarrow>?xs. sint x) < 2 ^ 63"
    using sum_sint_bounds [of ?xs] len by simp
  then have "sint (word_of_int (\<Sum>x\<leftarrow>?xs. sint x) :: clong) = (\<Sum>x\<leftarrow>?xs. sint x)"
    by (simp add: sint_word_of_int_64)
  then show ?thesis
    using k assms(2) by (simp add: mean_loop_word take_sample)
qed

lemma valid_caller_state:
  "0 \<le> sint sz \<Longrightarrow> count_of sz \<le> length xs \<Longrightarrow> valid_sample (caller_state p xs) p sz"
  by (simp add: valid_sample_def caller_state_def block_def)

lemma sample_caller_state: "sample (caller_state p xs) p sz = take (count_of sz) xs"
  by (simp add: sample_def caller_state_def block_def)

section \<open>The empty sample\<close>

text \<open>
  Claim C4. On the empty sample (\<open>size = 0\<close>, whatever the pointer) \<open>calculate_mean\<close>
  returns 0.0, \<open>calculate_median\<close> returns 0.0, and \<open>calculate_mode\<close> returns the
  result \<^verbatim>\<open>{NULL, 0, 0}\<close>, whose values are the empty list and whose frequency is 0;
  no call changes the state.
\<close>

theorem empty_sample_conventions:
  "calculate_mean s arr 0 = 0 \<and>
   calculate_median s arr 0 = (0, s) \<and>
   calculate_mode s arr 0 = (\<lparr>modes = NULL, count = 0, frequency = 0\<rparr>, s) \<and>
   mode_values (calculate_mode s arr 0) = []"
  by (simp add: calculate_mean_def calculate_median_def calculate_mode_def mode_values_def
      count_of_def)

section \<open>The comparison function and the sort\<close>

lemma sint_compare:
  "sint (compare a b) = signed_take_bit 31 (sint a - sint b)"
  by (simp add: compare_def sint_word_ariths)

lemma sint_compare_fits:
  "difference_fits a b \<Longrightarrow> sint (compare a b) = sint a - sint b"
  by (simp add: sint_compare difference_fits_def signed_take_bit_int_eq_self)

lemma sint_compare_above:
  assumes "2 ^ 31 \<le> sint a - sint b"
  shows "sint (compare a b) = sint a - sint b - 2 ^ 32"
proof -
  let ?d = "sint a - sint b"
  have "?d < 2 ^ 32"
    using sint_cint_bounds [of a] sint_cint_bounds [of b] by simp
  then have "(?d + 2 ^ 31) mod 2 ^ 32 = ?d + 2 ^ 31 - 2 ^ 32"
    using assms by (simp add: mod_pos_geq)
  then show ?thesis
    by (simp add: sint_compare signed_take_bit_eq_take_bit_shift take_bit_eq_mod)
qed

lemma mod_neg_range:
  fixes x m :: int
  assumes "- m \<le> x" and "x < 0"
  shows "x mod m = x + m"
proof -
  have "(x + m) mod m = x + m"
    using assms by (intro mod_pos_pos_trivial) simp_all
  then show ?thesis by simp
qed

lemma sint_compare_below:
  assumes "sint a - sint b < - (2 ^ 31)"
  shows "sint (compare a b) = sint a - sint b + 2 ^ 32"
proof -
  let ?d = "sint a - sint b"
  have "- (2 ^ 32) \<le> ?d"
    using sint_cint_bounds [of a] sint_cint_bounds [of b] by simp
  then have "(?d + 2 ^ 31) mod 2 ^ 32 = (?d + 2 ^ 31) + 2 ^ 32"
    using assms by (intro mod_neg_range) simp_all
  then show ?thesis
    by (simp add: sint_compare signed_take_bit_eq_take_bit_shift take_bit_eq_mod)
qed

lemma compare_agrees_iff: "compare_agrees a b \<longleftrightarrow> difference_fits a b"
proof
  assume "difference_fits a b"
  then show "compare_agrees a b"
    by (simp add: compare_agrees_def sint_compare_fits)
next
  assume ag: "compare_agrees a b"
  show "difference_fits a b"
  proof (rule ccontr)
    assume "\<not> difference_fits a b"
    then consider "2 ^ 31 \<le> sint a - sint b" | "sint a - sint b < - (2 ^ 31)"
      by (auto simp: difference_fits_def)
    then show False
    proof cases
      case 1
      have "sint a - sint b < 2 ^ 32"
        using sint_cint_bounds [of a] sint_cint_bounds [of b] by simp
      with 1 ag show False
        by (simp add: compare_agrees_def sint_compare_above)
    next
      case 2
      have "- (2 ^ 32) \<le> sint a - sint b"
        using sint_cint_bounds [of a] sint_cint_bounds [of b] by simp
      with 2 ag show False
        by (simp add: compare_agrees_def sint_compare_below)
    qed
  qed
qed

lemma compare_le_iff:
  "difference_fits a b \<Longrightarrow> sint (compare a b) \<le> 0 \<longleftrightarrow> sint a \<le> sint b"
  by (simp add: sint_compare_fits)

lemma mset_qsort_insert: "mset (qsort_insert cmp x ys) = add_mset x (mset ys)"
  by (induction ys) simp_all

lemma mset_qsort_list: "mset (qsort_list cmp xs) = mset xs"
  by (induction xs) (simp_all add: qsort_list_def mset_qsort_insert)

lemma set_qsort_insert: "set (qsort_insert cmp x ys) = insert x (set ys)"
  by (induction ys) auto

lemma set_qsort_list: "set (qsort_list cmp xs) = set xs"
  using mset_qsort_list [of cmp xs] by (metis set_mset_mset)

lemma length_qsort_list: "length (qsort_list cmp xs) = length xs"
  using mset_qsort_list [of cmp xs] by (metis size_mset)

lemma qsort_list_Nil: "qsort_list cmp [] = []"
  by (simp add: qsort_list_def)

lemma qsort_list_Cons: "qsort_list cmp (x # xs) = qsort_insert cmp x (qsort_list cmp xs)"
  by (simp add: qsort_list_def)

lemma sorted_qsort_insert:
  assumes "\<forall>y\<in>set ys. difference_fits x y" and "sorted (map sint ys)"
  shows "sorted (map sint (qsort_insert compare x ys))"
  using assms
proof (induction ys)
  case Nil
  show ?case by simp
next
  case (Cons y ys)
  show ?case
  proof (cases "sint (compare x y) \<le> 0")
    case True
    then have "sint x \<le> sint y"
      using Cons.prems(1) by (simp add: compare_le_iff)
    then show ?thesis
      using True Cons.prems(2) by auto
  next
    case False
    then have "sint y \<le> sint x"
      using Cons.prems(1) by (simp add: compare_le_iff)
    moreover have "sorted (map sint (qsort_insert compare x ys))"
      using Cons by simp
    ultimately show ?thesis
      using False Cons.prems(2) by (auto simp: set_qsort_insert)
  qed
qed

lemma sorted_qsort_list:
  "differences_fit xs \<Longrightarrow> sorted (map sint (qsort_list compare xs))"
proof (induction xs)
  case Nil
  show ?case by (simp add: qsort_list_Nil)
next
  case (Cons x xs)
  have "differences_fit xs"
    using Cons.prems by (simp add: differences_fit_def)
  then have "sorted (map sint (qsort_list compare xs))"
    by (rule Cons.IH)
  moreover have "\<forall>y\<in>set (qsort_list compare xs). difference_fits x y"
    using Cons.prems by (simp add: differences_fit_def set_qsort_list)
  ultimately show ?case
    by (simp add: qsort_list_Cons sorted_qsort_insert)
qed

lemma qsort_insert_sorted_wrt:
  "\<forall>y\<in>set ys. sint (cmp x y) \<le> 0 \<Longrightarrow> qsort_insert cmp x ys = x # ys"
  by (cases ys) simp_all

lemma qsort_list_fixes_sorted:
  "sorted_wrt (\<lambda>a b. sint (cmp a b) \<le> 0) xs \<Longrightarrow> qsort_list cmp xs = xs"
  by (induction xs) (simp_all add: qsort_list_Nil qsort_list_Cons qsort_insert_sorted_wrt)

lemma sorted_wrt_compare_iff:
  assumes "differences_fit ys"
  shows "sorted_wrt (\<lambda>a b. sint (compare a b) \<le> 0) ys \<longleftrightarrow> sorted (map sint ys)"
proof -
  have le: "sint (compare a b) \<le> 0 \<longleftrightarrow> sint a \<le> sint b" if "a \<in> set ys" "b \<in> set ys" for a b
    using assms that by (simp add: differences_fit_def compare_le_iff)
  have "sorted_wrt (\<lambda>a b. sint (compare a b) \<le> 0) ys \<longleftrightarrow> sorted_wrt (\<lambda>a b. sint a \<le> sint b) ys"
  proof
    assume "sorted_wrt (\<lambda>a b. sint (compare a b) \<le> 0) ys"
    then show "sorted_wrt (\<lambda>a b. sint a \<le> sint b) ys"
      using le sorted_wrt_mono_rel [of ys "\<lambda>a b. sint (compare a b) \<le> 0" "\<lambda>a b. sint a \<le> sint b"]
      by blast
  next
    assume "sorted_wrt (\<lambda>a b. sint a \<le> sint b) ys"
    then show "sorted_wrt (\<lambda>a b. sint (compare a b) \<le> 0) ys"
      using le sorted_wrt_mono_rel [of ys "\<lambda>a b. sint a \<le> sint b" "\<lambda>a b. sint (compare a b) \<le> 0"]
      by blast
  qed
  then show ?thesis
    by (simp only: sorted_map)
qed

lemma sorted_sint_unique:
  assumes "mset ys = mset zs" and "sorted (map sint ys)" and "sorted (map sint zs)"
  shows "ys = (zs :: cint list)"
proof -
  have "mset (map sint ys) = mset (map sint zs)"
    using assms(1) by simp
  then have "sort (map sint zs) = map sint ys"
    using assms(2) by (rule properties_for_sort)
  moreover have "sort (map sint zs) = map sint zs"
    using assms(3) by (rule sort_key_id_if_sorted [of "\<lambda>x. x", simplified])
  ultimately have "map sint ys = map sint zs"
    by (rule trans [OF sym])
  moreover have "inj (sint :: cint \<Rightarrow> int)"
    by (rule injI) (rule signed_word_eqI)
  ultimately show ?thesis
    using inj_map_eq_map by blast
qed

lemma qsort_list_unique:
  assumes "differences_fit xs" and "mset ys = mset xs"
    and "sorted_wrt (\<lambda>a b. sint (compare a b) \<le> 0) ys"
  shows "ys = qsort_list compare xs"
proof -
  have "set ys = set xs"
    using assms(2) by (metis set_mset_mset)
  then have "differences_fit ys"
    using assms(1) by (simp add: differences_fit_def)
  then have "sorted (map sint ys)"
    using assms(3) by (simp add: sorted_wrt_compare_iff)
  then show ?thesis
    using assms(1,2) by (intro sorted_sint_unique) (simp_all add: mset_qsort_list sorted_qsort_list)
qed

section \<open>The median on the store\<close>

subsection \<open>C division\<close>

lemma sdiv_nonneg: "0 \<le> k \<Longrightarrow> k sdiv 2 = k div (2::int)"
  by (simp add: signed_divide_int_def sgn_if)

lemma smod_nonneg: "0 \<le> k \<Longrightarrow> k smod 2 = k mod (2::int)"
  by (simp add: signed_modulo_int_def sgn_if)

lemma sint_two: "sint (2 :: cint) = 2"
  by simp

lemma c_mod_2_eq_0_iff:
  assumes "0 \<le> sint sz"
  shows "c_mod sz 2 = 0 \<longleftrightarrow> even (count_of sz)"
proof -
  let ?k = "sint sz"
  have "c_mod sz 2 = word_of_int (?k mod 2)"
    using assms by (simp add: c_mod_def smod_nonneg)
  moreover have "?k mod 2 = 0 \<or> ?k mod 2 = 1"
    by presburger
  moreover have "even (count_of sz) \<longleftrightarrow> ?k mod 2 = 0"
    using assms by (simp add: count_of_def even_nat_iff) presburger
  ultimately show ?thesis
    by auto
qed

lemma count_of_c_div_2:
  assumes "0 \<le> sint sz"
  shows "count_of (c_div sz 2) = count_of sz div 2"
proof -
  let ?k = "sint sz"
  have "?k div 2 < 2 ^ 31"
    using sint_cint_bounds(2) [of sz] assms by simp
  moreover have "0 \<le> ?k div 2"
    using assms by simp
  ultimately have "sint (word_of_int (?k div 2) :: cint) = ?k div 2"
    by (intro sint_word_of_int_32) simp_all
  then show ?thesis
    using assms by (simp add: c_div_def sdiv_nonneg count_of_def nat_div_distrib)
qed

lemma count_of_c_div_2_minus_1:
  assumes "0 \<le> sint sz"
  shows "count_of (c_div sz 2 - 1) = count_of sz div 2 - 1"
proof -
  let ?k = "sint sz"
  have "?k div 2 - 1 < 2 ^ 31"
    using sint_cint_bounds(2) [of sz] assms by simp
  moreover have "- (2 ^ 31) \<le> ?k div 2 - 1"
    using assms by simp
  ultimately have "sint (word_of_int (?k div 2 - 1) :: cint) = ?k div 2 - 1"
    by (intro sint_word_of_int_32) simp_all
  moreover have "c_div sz 2 - 1 = word_of_int (?k div 2 - 1)"
    using assms by (simp add: c_div_def sdiv_nonneg)
  ultimately show ?thesis
    using assms by (simp add: count_of_def nat_div_distrib nat_diff_distrib')
qed

subsection \<open>The store\<close>

lemma fold_max_ge: "a \<le> fold max xs (a::nat)"
proof (induction xs arbitrary: a)
  case Nil
  show ?case by simp
next
  case (Cons x xs)
  have "a \<le> max x a" by simp
  also have "\<dots> \<le> fold max xs (max x a)" by (rule Cons.IH)
  finally show ?case by simp
qed

lemma fold_max_mem: "x \<in> set xs \<Longrightarrow> x \<le> fold max xs (a::nat)"
proof (induction xs arbitrary: a)
  case Nil
  then show ?case by simp
next
  case (Cons y ys)
  show ?case
  proof (cases "x = y")
    case True
    have "x \<le> max y a" using True by simp
    also have "\<dots> \<le> fold max ys (max y a)" by (rule fold_max_ge)
    finally show ?thesis by simp
  next
    case False
    then have "x \<in> set ys" using Cons.prems by simp
    then show ?thesis by (simp add: Cons.IH)
  qed
qed

lemma fresh_greater: "p \<in> fst ` set (cells s) \<Longrightarrow> p < fresh s"
  using fold_max_mem [of p "map fst (cells s)" 0] by (simp add: fresh_def less_Suc_eq_le)

lemma fresh_not_allocated: "fresh s \<notin> fst ` set (cells s)"
  using fresh_greater [of "fresh s" s] by auto

lemma fresh_not_NULL: "fresh s \<noteq> NULL"
  by (simp add: fresh_def NULL_def)

lemma block_unallocated: "p \<notin> fst ` set (cells s) \<Longrightarrow> block s p = []"
  by (simp add: block_def map_of_eq_None_iff [THEN iffD2])

lemma allocated_if_nonempty: "block s p \<noteq> [] \<Longrightarrow> p \<in> fst ` set (cells s)"
  using block_unallocated by blast

lemma block_head:
  "cells s = (p, zs) # c \<Longrightarrow> block s q = (if q = p then zs else block (s\<lparr>cells := c\<rparr>) q)"
  by (simp add: block_def)

lemma block_cells_cong: "cells s = cells s' \<Longrightarrow> block s p = block s' p"
  by (simp add: block_def)

lemma malloc_ok:
  "no_oom s \<Longrightarrow>
   malloc s n = (fresh s, s\<lparr>cells := (fresh s, replicate n 0) # cells s, allocs := tl (allocs s)\<rparr>)"
  by (cases "allocs s") (auto simp: malloc_def no_oom_def split: list.splits bool.splits)

lemma no_oom_tl: "no_oom s \<Longrightarrow> no_oom (s\<lparr>allocs := tl (allocs s)\<rparr>)"
  by (cases "allocs s") (auto simp: no_oom_def)

lemma memcpy_head:
  "cells s = (p, zs) # c \<Longrightarrow>
   memcpy s p src n = s\<lparr>cells := (p, take n (block s src) @ drop n zs) # c\<rparr>"
  by (simp add: memcpy_def block_def)

lemma qsort_head:
  "cells s = (p, zs) # c \<Longrightarrow>
   qsort s p n cmp = s\<lparr>cells := (p, qsort_list cmp (take n zs) @ drop n zs) # c\<rparr>"
  by (simp add: qsort_def block_def)

lemma wr_head:
  "cells s = (p, zs) # c \<Longrightarrow> wr s p i v = s\<lparr>cells := (p, zs[i := v]) # c\<rparr>"
  by (simp add: wr_def block_def)

lemma free_head:
  "cells s = (p, zs) # c \<Longrightarrow> p \<notin> fst ` set c \<Longrightarrow> free s p = s\<lparr>cells := c\<rparr>"
  by (simp add: free_def)

lemma valid_sample_allocated:
  assumes "valid_sample s arr sz" and "sz \<noteq> 0"
  shows "arr \<in> fst ` set (cells s)"
proof -
  have "count_of sz \<noteq> 0"
    using assms by (simp add: valid_sample_def count_of_eq_0_iff)
  then have "block s arr \<noteq> []"
    using assms(1) by (auto simp: valid_sample_def)
  then show ?thesis by (rule allocated_if_nonempty)
qed

lemma malloc_cases:
  "malloc s n =
     (if fails (allocs s) then (NULL, s\<lparr>allocs := tl (allocs s)\<rparr>)
      else (fresh s, s\<lparr>cells := (fresh s, replicate n 0) # cells s, allocs := tl (allocs s)\<rparr>))"
  by (cases "allocs s") (auto simp: malloc_def fails_def split: list.splits bool.splits)

lemma no_oom_not_fails:
  assumes "no_oom s"
  shows "\<not> fails (allocs s)" and "\<not> fails (tl (allocs s))" and "\<not> fails (tl (tl (allocs s)))"
proof -
  have 1: "False \<notin> set (allocs s)"
    using assms by (simp add: no_oom_def)
  then have 2: "False \<notin> set (tl (allocs s))"
    by (cases "allocs s") auto
  then have 3: "False \<notin> set (tl (tl (allocs s)))"
    by (cases "tl (allocs s)") auto
  show "\<not> fails (allocs s)"
    using 1 by (cases "allocs s") (auto simp: fails_def)
  show "\<not> fails (tl (allocs s))"
    using 2 by (cases "tl (allocs s)") (auto simp: fails_def)
  show "\<not> fails (tl (tl (allocs s)))"
    using 3 by (cases "tl (tl (allocs s))") (auto simp: fails_def)
qed

lemma calculate_median_cases:
  assumes "valid_sample s arr sz" and "sz \<noteq> 0"
  shows "calculate_median s arr sz =
         (if fails (allocs s)
          then (0, fprintf_stderr (s\<lparr>allocs := tl (allocs s)\<rparr>)
                     (''Memory allocation failed'' @ [CHR 0x0A]))
          else (median_of_sorted (qsort_list compare (sample s arr sz)),
                s\<lparr>allocs := tl (allocs s)\<rparr>))"
proof (cases "fails (allocs s)")
  case True
  then show ?thesis
    using assms(2) by (simp add: calculate_median_def malloc_cases)
next
  case False
  let ?n = "count_of sz"
  let ?p = "fresh s"
  let ?srt = "qsort_list compare (sample s arr sz)"
  define s1 where "s1 = s\<lparr>cells := (?p, replicate ?n 0) # cells s, allocs := tl (allocs s)\<rparr>"
  define s2 where "s2 = s1\<lparr>cells := (?p, sample s arr sz) # cells s\<rparr>"
  define s3 where "s3 = s1\<lparr>cells := (?p, ?srt) # cells s\<rparr>"
  have nonneg: "0 \<le> sint sz"
    using assms(1) by (simp add: valid_sample_def)
  have arr: "arr \<noteq> ?p"
    using valid_sample_allocated [OF assms] fresh_not_allocated [of s] by blast
  have m: "malloc s ?n = (?p, s1)"
    using False by (simp add: malloc_cases s1_def)
  have c1: "cells s1 = (?p, replicate ?n 0) # cells s"
    by (simp add: s1_def)
  have "block s1 arr = block s arr"
    using arr by (simp add: block_def s1_def)
  then have cp: "memcpy s1 ?p arr ?n = s2"
    by (subst memcpy_head [OF c1]) (simp add: s2_def sample_def)
  have c2: "cells s2 = (?p, sample s arr sz) # cells s"
    by (simp add: s2_def)
  have len: "length (sample s arr sz) = ?n"
    using assms(1) by (rule length_sample)
  have qs: "qsort s2 ?p ?n compare = s3"
    by (subst qsort_head [OF c2]) (simp add: len s2_def s3_def)
  have c3: "cells s3 = (?p, ?srt) # cells s"
    by (simp add: s3_def)
  have rd3: "rd s3 ?p i = ?srt ! i" for i
    by (simp add: rd_def block_def s3_def)
  have fr: "free s3 ?p = s\<lparr>allocs := tl (allocs s)\<rparr>"
    by (subst free_head [OF c3 fresh_not_allocated]) (simp add: s3_def s1_def)
  have lsrt: "length ?srt = ?n"
    by (simp add: length_qsort_list len)
  show ?thesis
    using assms(2) fresh_not_NULL [of s] False
    by (simp add: calculate_median_def m cp qs rd3 fr Let_def median_of_sorted_def lsrt
        c_mod_2_eq_0_iff [OF nonneg] count_of_c_div_2 [OF nonneg]
        count_of_c_div_2_minus_1 [OF nonneg])
qed

lemma calculate_median_eq:
  assumes "valid_sample s arr sz" and "no_oom s" and "sz \<noteq> 0"
  shows "calculate_median s arr sz =
         (median_of_sorted (qsort_list compare (sample s arr sz)), s\<lparr>allocs := tl (allocs s)\<rparr>)"
  using calculate_median_cases [OF assms(1,3)] no_oom_not_fails(1) [OF assms(2)] by simp

section \<open>Runs and the loops of the mode\<close>

subsection \<open>Counters\<close>

lemma sint_of_nat_cint: "n < 2 ^ 31 \<Longrightarrow> sint (of_nat n :: cint) = int n"
proof -
  assume "n < 2 ^ 31"
  then have "int n < 2 ^ 31"
    by (metis of_nat_less_numeral_power_cancel_iff)
  then have "sint (word_of_int (int n) :: cint) = int n"
    by (intro sint_word_of_int_32) simp_all
  then show ?thesis by simp
qed

lemma count_of_of_nat: "n < 2 ^ 31 \<Longrightarrow> count_of (of_nat n) = n"
  by (simp add: count_of_def sint_of_nat_cint)

lemma of_nat_sless_iff:
  "a < 2 ^ 31 \<Longrightarrow> b < 2 ^ 31 \<Longrightarrow> (of_nat a :: cint) <s of_nat b \<longleftrightarrow> a < b"
  by (simp add: word_sless_alt sint_of_nat_cint)

lemma of_nat_cint_eq_iff:
  assumes "a < 2 ^ 31" and "b < 2 ^ 31"
  shows "(of_nat a :: cint) = of_nat b \<longleftrightarrow> a = b"
proof
  assume "(of_nat a :: cint) = of_nat b"
  then have "sint (of_nat a :: cint) = sint (of_nat b :: cint)"
    by (rule arg_cong)
  then show "a = b"
    using assms by (simp only: sint_of_nat_cint of_nat_eq_iff)
next
  assume "a = b"
  then show "(of_nat a :: cint) = of_nat b" by (rule arg_cong)
qed

lemma of_nat_count_of: "0 \<le> sint sz \<Longrightarrow> of_nat (count_of sz) = sz"
  by (simp add: count_of_def)

subsection \<open>Runs\<close>

lemma runs_from_nonempty: "runs_from v c xs \<noteq> []"
  by (induction xs arbitrary: v c) simp_all

lemma length_runs_from: "length (runs_from v c xs) \<le> Suc (length xs)"
proof (induction xs arbitrary: v c)
  case Nil
  show ?case by simp
next
  case (Cons x xs)
  show ?case
    using Cons.IH [of v "c + 1"] Cons.IH [of x 1] by simp
qed

lemma runs_from_bound:
  "(w, k) \<in> set (runs_from v c xs) \<Longrightarrow> k \<le> c + length xs"
proof (induction xs arbitrary: v c)
  case Nil
  then show ?case by simp
next
  case (Cons x xs)
  show ?case
  proof (cases "x = v")
    case True
    then show ?thesis
      using Cons.prems Cons.IH [of v "c + 1"] by simp
  next
    case False
    then show ?thesis
      using Cons.prems Cons.IH [of x 1] by auto
  qed
qed

lemma runs_from_pos:
  "0 < c \<Longrightarrow> (w, k) \<in> set (runs_from v c xs) \<Longrightarrow> 0 < k"
proof (induction xs arbitrary: v c)
  case Nil
  then show ?case by simp
next
  case (Cons x xs)
  show ?case
  proof (cases "x = v")
    case True
    then show ?thesis
      using Cons.prems Cons.IH [of "c + 1" v] by simp
  next
    case False
    then show ?thesis
      using Cons.prems Cons.IH [of 1 x] by auto
  qed
qed

lemma fold_max_bound: "a \<le> b \<Longrightarrow> \<forall>x\<in>set xs. x \<le> b \<Longrightarrow> fold max xs (a::nat) \<le> b"
  by (induction xs arbitrary: a) simp_all

lemma fold_max_in: "fold max xs (a::nat) \<in> insert a (set xs)"
proof (induction xs arbitrary: a)
  case Nil
  show ?case by simp
next
  case (Cons x xs)
  define m where "m = max x a"
  have "fold max xs m \<in> insert m (set xs)"
    by (rule Cons.IH)
  moreover have "m = x \<or> m = a"
    by (simp add: m_def max_def)
  ultimately have "fold max xs m \<in> insert a (insert x (set xs))"
    by auto
  then show ?case
    by (simp add: m_def)
qed

lemma fold_max_eq_Max: "fold max xs (a::nat) = Max (insert a (set xs))"
proof (rule sym, rule Max_eqI)
  show "finite (insert a (set xs))" by simp
  show "y \<le> fold max xs a" if "y \<in> insert a (set xs)" for y
    using that fold_max_ge [of a xs] fold_max_mem [of y xs a] by auto
  show "fold max xs a \<in> insert a (set xs)" by (rule fold_max_in)
qed

subsection \<open>The first loop\<close>

lemma fold_count_run:
  assumes "c + length xs < 2 ^ 31" and "m < 2 ^ 31"
  shows "fold count_run xs (of_nat m, of_nat c, v) =
         (of_nat (fold max (map snd (butlast (runs_from v c xs))) m),
          of_nat (snd (last (runs_from v c xs))), fst (last (runs_from v c xs)))"
  using assms
proof (induction xs arbitrary: m c v)
  case Nil
  show ?case by simp
next
  case (Cons x xs)
  show ?case
  proof (cases "x = v")
    case True
    have "fold count_run (x # xs) (of_nat m, of_nat c, v)
          = fold count_run xs (of_nat m, of_nat (c + 1), v)"
      using True by (simp add: count_run_def add.commute)
    moreover have "c + 1 + length xs < 2 ^ 31"
      using Cons.prems(1) by simp
    ultimately show ?thesis
      using True Cons.prems(2) Cons.IH [of "c + 1" m v] by simp
  next
    case False
    have c: "c < 2 ^ 31" using Cons.prems(1) by simp
    have "fold count_run (x # xs) (of_nat m, of_nat c, v)
          = fold count_run xs (of_nat (max m c), of_nat 1, x)"
      using False Cons.prems(2) c by (simp add: count_run_def of_nat_sless_iff max_def)
    moreover have "1 + length xs < 2 ^ 31" "max m c < 2 ^ 31"
      using Cons.prems c by simp_all
    ultimately show ?thesis
      using False Cons.IH [of 1 "max m c" x]
      by (simp add: runs_from_nonempty max.commute)
  qed
qed

subsection \<open>The second loop\<close>

lemma modes_with_Cons:
  "modes_with f ((v, c) # rs) = (if c = f then v # modes_with f rs else modes_with f rs)"
  by (simp add: modes_with_def)

lemma modes_with_Nil: "modes_with f [] = []"
  by (simp add: modes_with_def)

lemma modes_with_append: "modes_with f (rs @ rs') = modes_with f rs @ modes_with f rs'"
  by (simp add: modes_with_def)

lemma length_modes_with: "length (modes_with f rs) \<le> length rs"
  by (simp add: modes_with_def)

lemma fold_collect_run:
  assumes "c + length xs < 2 ^ 31" and "f < 2 ^ 31"
    and "length ms + length junk < 2 ^ 31"
    and "length (runs_from v c xs) \<le> Suc (length junk)"
  shows "fold (collect_run (of_nat f)) xs (ms @ junk, of_nat (length ms), of_nat c, v) =
         (ms @ modes_with f (butlast (runs_from v c xs))
             @ drop (length (modes_with f (butlast (runs_from v c xs)))) junk,
          of_nat (length ms + length (modes_with f (butlast (runs_from v c xs)))),
          of_nat (snd (last (runs_from v c xs))), fst (last (runs_from v c xs)))"
  using assms
proof (induction xs arbitrary: ms junk c v)
  case Nil
  show ?case by (simp add: modes_with_Nil)
next
  case (Cons x xs)
  show ?case
  proof (cases "x = v")
    case True
    have "fold (collect_run (of_nat f)) (x # xs) (ms @ junk, of_nat (length ms), of_nat c, v)
          = fold (collect_run (of_nat f)) xs (ms @ junk, of_nat (length ms), of_nat (c + 1), v)"
      using True by (simp add: collect_run_def add.commute)
    moreover have "c + 1 + length xs < 2 ^ 31"
      using Cons.prems(1) by simp
    moreover have "length (runs_from v (c + 1) xs) \<le> Suc (length junk)"
      using True Cons.prems(4) by simp
    ultimately show ?thesis
      using True Cons.prems(2,3) Cons.IH [of "c + 1" ms junk v] by simp
  next
    case False
    let ?R = "runs_from x 1 xs"
    have c: "c < 2 ^ 31" using Cons.prems(1) by simp
    have one: "1 + length xs < 2 ^ 31" using Cons.prems(1) by simp
    have R: "runs_from v c (x # xs) = (v, c) # ?R"
      using False by simp
    have bl: "butlast (runs_from v c (x # xs)) = (v, c) # butlast ?R"
      using False by (simp add: runs_from_nonempty)
    have la: "last (runs_from v c (x # xs)) = last ?R"
      using False by (simp add: runs_from_nonempty)
    have lenR: "length ?R \<le> length junk"
      using Cons.prems(4) False by simp
    show ?thesis
    proof (cases "c = f")
      case True
      have "junk \<noteq> []"
        using lenR runs_from_nonempty [of x 1 xs] by auto
      then obtain j js where junk: "junk = j # js"
        by (cases junk) auto
      have m: "length ms < 2 ^ 31"
        using Cons.prems(3) by simp
      have "(ms @ junk)[count_of (of_nat (length ms)) := v] = (ms @ [v]) @ js"
        by (simp add: count_of_of_nat [OF m] junk list_update_append)
      then have "fold (collect_run (of_nat f)) (x # xs) (ms @ junk, of_nat (length ms), of_nat c, v)
            = fold (collect_run (of_nat f)) xs
                ((ms @ [v]) @ js, of_nat (length (ms @ [v])), of_nat 1, x)"
        using False True by (simp add: collect_run_def add.commute)
      moreover have "length (ms @ [v]) + length js < 2 ^ 31"
        using Cons.prems(3) by (simp add: junk)
      moreover have "length ?R \<le> Suc (length js)"
        using lenR by (simp add: junk)
      ultimately have "fold (collect_run (of_nat f)) (x # xs)
                         (ms @ junk, of_nat (length ms), of_nat c, v) =
         ((ms @ [v]) @ modes_with f (butlast ?R) @ drop (length (modes_with f (butlast ?R))) js,
          of_nat (length (ms @ [v]) + length (modes_with f (butlast ?R))),
          of_nat (snd (last ?R)), fst (last ?R))"
        using Cons.IH [of 1 "ms @ [v]" js x] one Cons.prems(2) by simp
      then show ?thesis
        using True \<open>x \<noteq> v\<close> by (simp add: runs_from_nonempty modes_with_Cons junk)
    next
      case False
      have "of_nat c \<noteq> (of_nat f :: cint)"
        using False c Cons.prems(2) by (simp add: of_nat_cint_eq_iff)
      then have "fold (collect_run (of_nat f)) (x # xs)
                   (ms @ junk, of_nat (length ms), of_nat c, v)
            = fold (collect_run (of_nat f)) xs (ms @ junk, of_nat (length ms), of_nat 1, x)"
        using \<open>x \<noteq> v\<close> by (simp add: collect_run_def)
      moreover have "length ?R \<le> Suc (length junk)"
        using lenR by simp
      ultimately have "fold (collect_run (of_nat f)) (x # xs)
                         (ms @ junk, of_nat (length ms), of_nat c, v) =
         (ms @ modes_with f (butlast ?R) @ drop (length (modes_with f (butlast ?R))) junk,
          of_nat (length ms + length (modes_with f (butlast ?R))),
          of_nat (snd (last ?R)), fst (last ?R))"
        using Cons.IH [of 1 ms junk x] one Cons.prems(2,3) by simp
      then show ?thesis
        using False \<open>x \<noteq> v\<close> by (simp add: runs_from_nonempty modes_with_Cons)
    qed
  qed
qed

lemma mode_pass1_eq: "mode_pass1 s p i = count_run (rd s p i)"
  by (simp add: mode_pass1_def count_run_def fun_eq_iff)

lemma state_cells_same: "cells s = c \<Longrightarrow> s\<lparr>cells := c\<rparr> = s"
  by simp

lemma mode_pass2_step:
  assumes "cells s = (temp, buf) # c" and "sorted_arr \<noteq> temp"
  shows "mode_pass2 sorted_arr temp f i (s, st) =
         (case collect_run f (block s sorted_arr ! i) (buf, st) of
            (buf', st') \<Rightarrow> (s\<lparr>cells := (temp, buf') # c\<rparr>, st'))"
proof -
  obtain mc cf cv where st: "st = (mc, cf, cv)"
    by (cases st) auto
  have same: "s\<lparr>cells := (temp, buf) # c\<rparr> = s"
    using assms(1) by simp
  have rd: "rd (s\<lparr>cells := (temp, b) # c\<rparr>) sorted_arr i = block s sorted_arr ! i" for b
    using assms by (simp add: rd_def block_def)
  have rd0: "rd s sorted_arr i = block s sorted_arr ! i"
    by (simp add: rd_def)
  show ?thesis
    by (simp add: st mode_pass2_def collect_run_def wr_head [OF assms(1)] rd rd0 same)
qed

lemma fold_mode_pass2:
  assumes "cells s = (temp, buf) # c" and "sorted_arr \<noteq> temp"
  shows "fold (mode_pass2 sorted_arr temp f) js (s, st) =
         (case fold (\<lambda>i. collect_run f (block s sorted_arr ! i)) js (buf, st) of
            (buf', st') \<Rightarrow> (s\<lparr>cells := (temp, buf') # c\<rparr>, st'))"
  using assms(1)
proof (induction js arbitrary: s buf st)
  case Nil
  then show ?case by simp
next
  case (Cons j js)
  obtain buf1 st1 where step: "collect_run f (block s sorted_arr ! j) (buf, st) = (buf1, st1)"
    by (cases "collect_run f (block s sorted_arr ! j) (buf, st)") auto
  let ?s1 = "s\<lparr>cells := (temp, buf1) # c\<rparr>"
  have s1: "mode_pass2 sorted_arr temp f j (s, st) = (?s1, st1)"
    using mode_pass2_step [OF Cons.prems assms(2), of f j st] step by simp
  have c1: "cells ?s1 = (temp, buf1) # c"
    by simp
  have b1: "block ?s1 sorted_arr = block s sorted_arr"
    using Cons.prems assms(2) by (simp add: block_def)
  show ?case
    using Cons.IH [OF c1, of st1] by (simp add: s1 step b1)
qed

lemma fresh_head:
  assumes "cells s = (p, zs) # c" and "\<forall>k\<in>fst ` set c. k < p"
  shows "fresh s = Suc p"
proof -
  have "fold max (map fst c) (max p 0) \<le> p"
    using assms(2) by (intro fold_max_bound) auto
  moreover have "max p 0 \<le> fold max (map fst c) (max p 0)"
    by (rule fold_max_ge)
  ultimately show ?thesis
    using assms(1) by (simp add: fresh_def)
qed

lemma no_oom_tlD: "no_oom s \<Longrightarrow> False \<notin> set (tl (allocs s))"
  by (cases "allocs s") (auto simp: no_oom_def)

lemma no_oom_tl_tlD: "no_oom s \<Longrightarrow> False \<notin> set (tl (tl (allocs s)))"
  by (cases "allocs s"; cases "tl (allocs s)") (auto simp: no_oom_def)

lemma fold_max_append_last:
  "rs \<noteq> [] \<Longrightarrow> max (fold max (map snd (butlast rs)) a) (snd (last rs)) = fold max (map snd rs) (a::nat)"
proof -
  assume "rs \<noteq> []"
  then have "rs = butlast rs @ [last rs]" by simp
  then have "fold max (map snd rs) a = fold max (map snd (butlast rs @ [last rs])) a"
    by simp
  also have "\<dots> = max (snd (last rs)) (fold max (map snd (butlast rs)) a)"
    by (simp del: append_butlast_last_id)
  finally show ?thesis by (simp add: max.commute)
qed

lemma fold_max_from_1:
  assumes "ys \<noteq> []" and "\<forall>y\<in>set ys. 0 < y"
  shows "fold max ys (1::nat) = fold max ys 0"
proof -
  obtain y ys' where ys: "ys = y # ys'"
    using assms(1) by (cases ys) auto
  then have "max y 1 = max y 0"
    using assms(2) by (simp add: max_def)
  then show ?thesis
    by (simp add: ys)
qed

lemma runs_Cons: "runs (x # xs) = runs_from x 1 xs"
  by (simp add: runs_def)

lemma max_run_Cons:
  "max_run (x # xs) = max (fold max (map snd (butlast (runs_from x 1 xs))) 1)
                          (snd (last (runs_from x 1 xs)))"
proof -
  let ?R = "runs_from x 1 xs"
  have "\<forall>y\<in>set (map snd ?R). 0 < y"
    using runs_from_pos [of 1 _ _ x xs] by auto
  then have "fold max (map snd ?R) 1 = fold max (map snd ?R) 0"
    by (intro fold_max_from_1) (simp_all add: runs_from_nonempty)
  then show ?thesis
    by (simp add: max_run_def runs_Cons fold_max_append_last runs_from_nonempty)
qed

lemma max_run_le_length: "max_run srt \<le> length srt"
proof (cases srt)
  case Nil
  then show ?thesis by (simp add: max_run_def runs_def)
next
  case (Cons x xs)
  have "\<forall>k\<in>set (map snd (runs_from x 1 xs)). k \<le> length srt"
    using runs_from_bound [of _ _ x 1 xs] Cons by auto
  then show ?thesis
    unfolding max_run_def Cons runs_Cons using Cons by (intro fold_max_bound) simp_all
qed

lemma modes_of_sorted_Cons:
  "modes_of_sorted (x # xs) =
     modes_with (max_run (x # xs)) (butlast (runs_from x 1 xs)) @
     (if snd (last (runs_from x 1 xs)) = max_run (x # xs) then [fst (last (runs_from x 1 xs))]
      else [])"
proof -
  let ?R = "runs_from x 1 xs"
  have "?R = butlast ?R @ [last ?R]"
    by (simp add: runs_from_nonempty)
  then have "modes_with f ?R = modes_with f (butlast ?R) @ modes_with f [last ?R]" for f
    by (metis modes_with_append)
  then show ?thesis
    by (cases "last ?R") (simp add: modes_of_sorted_def runs_Cons modes_with_Cons modes_with_Nil)
qed

lemma length_modes_of_sorted: "length (modes_of_sorted srt) \<le> length srt"
proof (cases srt)
  case Nil
  then show ?thesis by (simp add: modes_of_sorted_def runs_def modes_with_Nil)
next
  case (Cons x xs)
  have "length (modes_of_sorted srt) \<le> length (runs srt)"
    by (simp add: modes_of_sorted_def length_modes_with)
  also have "\<dots> \<le> length srt"
    using length_runs_from [of x 1 xs] by (simp add: Cons runs_Cons)
  finally show ?thesis .
qed

section \<open>The mode on the store\<close>

lemma malloc_ok':
  "False \<notin> set (allocs s) \<Longrightarrow>
   malloc s n = (fresh s, s\<lparr>cells := (fresh s, replicate n 0) # cells s, allocs := tl (allocs s)\<rparr>)"
  using malloc_ok [of s n] by (simp add: no_oom_def)

lemma list_update_junk:
  assumes "length ms < n"
  shows "(ms @ drop (length ms) (replicate n a))[length ms := v]
         = (ms @ [v]) @ drop (length (ms @ [v])) (replicate n a)"
proof -
  obtain k where k: "n - length ms = Suc k"
    using assms by (cases "n - length ms") simp_all
  then have "n - Suc (length ms) = k"
    by simp
  then show ?thesis
    by (simp add: k list_update_append)
qed

lemma calculate_mode_cases:
  assumes "valid_sample s arr sz" and "sz \<noteq> 0"
  shows "calculate_mode s arr sz =
         (if fails (allocs s)
          then (\<lparr>modes = NULL, count = 0, frequency = 0\<rparr>,
                fprintf_stderr (s\<lparr>allocs := tl (allocs s)\<rparr>)
                  (''Memory allocation failed in calculate_mode'' @ [CHR 0x0A]))
          else if fails (tl (allocs s))
          then (\<lparr>modes = NULL, count = 0, frequency = 0\<rparr>, s\<lparr>allocs := tl (tl (allocs s))\<rparr>)
          else if fails (tl (tl (allocs s)))
          then (\<lparr>modes = NULL, count = 0, frequency = 0\<rparr>,
                s\<lparr>allocs := tl (tl (tl (allocs s)))\<rparr>)
          else
            (\<lparr>modes = Suc (Suc (fresh s)),
              count = of_nat (length (modes_of_sorted (qsort_list compare (sample s arr sz)))),
              frequency = of_nat (max_run (qsort_list compare (sample s arr sz)))\<rparr>,
             s\<lparr>cells := (Suc (Suc (fresh s)),
                         modes_of_sorted (qsort_list compare (sample s arr sz))) # cells s,
               allocs := tl (tl (tl (allocs s)))\<rparr>))"
proof -
  let ?a1 = "fresh s"
  let ?a2 = "Suc (fresh s)"
  let ?a3 = "Suc (Suc (fresh s))"
  define n where "n = count_of sz"
  define srt where "srt = qsort_list compare (sample s arr sz)"
  define F where "F = max_run srt"
  define M where "M = modes_of_sorted srt"
  define zeros where "zeros = replicate n (0 :: cint)"
  define s1 where "s1 = s\<lparr>cells := (?a1, zeros) # cells s, allocs := tl (allocs s)\<rparr>"
  define s2 where "s2 = s1\<lparr>cells := (?a1, sample s arr sz) # cells s\<rparr>"
  define s3 where "s3 = s1\<lparr>cells := (?a1, srt) # cells s\<rparr>"
  define c3 where "c3 = (?a1, srt) # cells s"
  define s4 where "s4 = s3\<lparr>cells := (?a2, zeros) # c3, allocs := tl (tl (allocs s))\<rparr>"
  define buf where "buf = M @ drop (length M) zeros"
  define s6 where "s6 = s4\<lparr>cells := (?a2, buf) # c3\<rparr>"
  define s7 where "s7 = s6\<lparr>cells := (?a3, replicate (length M) 0) # (?a2, buf) # c3,
                           allocs := tl (tl (tl (allocs s)))\<rparr>"
  define s8 where "s8 = s7\<lparr>cells := (?a3, M) # (?a2, buf) # c3\<rparr>"
  have nonneg: "0 \<le> sint sz"
    using assms(1) by (simp add: valid_sample_def)
  have npos: "0 < n"
    using assms(2) nonneg by (simp add: n_def count_of_eq_0_iff [symmetric])
  have n31: "n < 2 ^ 31"
    unfolding n_def by (rule count_of_less)
  have len: "length (sample s arr sz) = n"
    unfolding n_def using assms(1) by (rule length_sample)
  have lsrt: "length srt = n"
    by (simp add: srt_def length_qsort_list len)
  obtain x0 xs where srt: "srt = x0 # xs"
    using lsrt npos by (cases srt) auto
  have lxs: "Suc (length xs) = n"
    using lsrt by (simp add: srt)
  define R where "R = runs_from x0 1 xs"
  define A where "A = fold max (map snd (butlast R)) 1"
  define B where "B = snd (last R)"
  define v where "v = fst (last R)"
  define M' where "M' = modes_with F (butlast R)"
  have Rne: "R \<noteq> []"
    by (simp add: R_def runs_from_nonempty)
  have arr: "arr \<noteq> ?a1"
    using valid_sample_allocated [OF assms] fresh_not_allocated [of s] by blast
  have keys: "\<forall>k\<in>fst ` set (cells s). k < ?a1"
    by (simp add: fresh_greater)
  \<comment> \<open>the sorted copy\<close>
  have m1: "malloc s n = (if fails (allocs s) then (NULL, s\<lparr>allocs := tl (allocs s)\<rparr>) else (?a1, s1))"
    by (simp add: malloc_cases s1_def zeros_def)
  have cs1: "cells s1 = (?a1, zeros) # cells s"
    by (simp add: s1_def)
  have "block s1 arr = block s arr"
    using arr by (simp add: block_def s1_def)
  then have cp: "memcpy s1 ?a1 arr n = s2"
    by (subst memcpy_head [OF cs1]) (simp add: s2_def sample_def zeros_def n_def)
  have cs2: "cells s2 = (?a1, sample s arr sz) # cells s"
    by (simp add: s2_def)
  have qs: "qsort s2 ?a1 n compare = s3"
    by (subst qsort_head [OF cs2]) (simp add: len s2_def s3_def srt_def)
  have b3: "block s3 ?a1 = srt"
    by (simp add: block_def s3_def)
  \<comment> \<open>the first loop\<close>
  have F_le: "F \<le> n"
    using max_run_le_length [of srt] lsrt by (simp add: F_def)
  have F_bound: "F < 2 ^ 31"
    using F_le n31 by simp
  have R_bound: "k \<le> n" if "(w, k) \<in> set R" for w k
    using runs_from_bound [of w k x0 1 xs] that lxs by (simp add: R_def)
  have B_bound: "B < 2 ^ 31"
  proof -
    have "(v, B) \<in> set R"
      using Rne by (simp add: v_def B_def)
    then show ?thesis
      using R_bound n31 by fastforce
  qed
  have A_bound: "A < 2 ^ 31"
  proof -
    have "\<forall>k\<in>set (map snd (butlast R)). k \<le> n"
      using R_bound by (auto dest: in_set_butlastD)
    then have "A \<le> n"
      unfolding A_def using npos by (intro fold_max_bound) simp_all
    then show ?thesis using n31 by simp
  qed
  have maxAB: "max A B = F"
    by (simp only: F_def srt max_run_Cons A_def B_def R_def)
  have "fold (mode_pass1 s3 ?a1) [1 ..< n] (1, 1, rd s3 ?a1 0)
        = fold count_run (drop 1 (take n srt)) (1, 1, x0)"
    using fold_nth_upt [where f = count_run, of n srt 1 "(1, 1, x0)"] lsrt
    by (simp add: mode_pass1_eq [abs_def] rd_def b3 srt)
  also have "\<dots> = fold count_run xs (of_nat 1, of_nat 1, x0)"
    using lxs by (simp add: srt)
  also have "\<dots> = (of_nat (fold max (map snd (butlast (runs_from x0 1 xs))) 1),
                     of_nat (snd (last (runs_from x0 1 xs))), fst (last (runs_from x0 1 xs)))"
    using lxs n31 by (intro fold_count_run) simp_all
  finally have p1: "fold (mode_pass1 s3 ?a1) [1 ..< n] (1, 1, rd s3 ?a1 0)
        = (of_nat A, of_nat B, v)"
    by (simp only: A_def B_def v_def R_def)
  have maxf: "(if (of_nat A :: cint) <s of_nat B then of_nat B else of_nat A) = (of_nat F :: cint)"
    using A_bound B_bound by (simp add: of_nat_sless_iff max_def maxAB [symmetric])
  \<comment> \<open>the buffer of the second loop\<close>
  have a2: "fresh s3 = ?a2"
    using keys by (intro fresh_head [of s3 ?a1 srt "cells s"]) (simp_all add: s3_def)
  have m2: "malloc s3 n =
              (if fails (tl (allocs s)) then (NULL, s3\<lparr>allocs := tl (tl (allocs s))\<rparr>)
               else (?a2, s4))"
  proof -
    have "malloc s3 n =
        (if fails (allocs s3) then (NULL, s3\<lparr>allocs := tl (allocs s3)\<rparr>)
         else (fresh s3, s3\<lparr>cells := (fresh s3, replicate n 0) # cells s3,
                           allocs := tl (allocs s3)\<rparr>))"
      by (rule malloc_cases)
    also have "\<dots> = (if fails (tl (allocs s)) then (NULL, s3\<lparr>allocs := tl (tl (allocs s))\<rparr>)
                      else (?a2, s4))"
      unfolding a2 by (simp add: s4_def s3_def s1_def c3_def zeros_def)
    finally show ?thesis .
  qed
  have cs4: "cells s4 = (?a2, zeros) # c3"
    by (simp add: s4_def)
  have b4: "block s4 ?a1 = srt"
    by (simp add: block_def s4_def c3_def)
  \<comment> \<open>the second loop\<close>
  have lenR: "length R \<le> n"
    using length_runs_from [of x0 1 xs] lxs by (simp add: R_def)
  have lenM': "length M' < n"
  proof -
    have "length M' \<le> length (butlast R)"
      unfolding M'_def by (rule length_modes_with)
    also have "\<dots> < length R"
      using Rne by simp
    finally show ?thesis using lenR by simp
  qed
  have "fold (mode_pass2 ?a1 ?a2 (of_nat F)) [1 ..< n] (s4, 0, 1, rd s4 ?a1 0)
        = (case fold (\<lambda>i. collect_run (of_nat F) (srt ! i)) [1 ..< n] (zeros, 0, 1, x0) of
             (buf', st') \<Rightarrow> (s4\<lparr>cells := (?a2, buf') # c3\<rparr>, st'))"
    using fold_mode_pass2 [OF cs4, of ?a1 "of_nat F" "[1 ..< n]" "(0, 1, x0)"]
    by (simp add: b4 rd_def srt)
  moreover have "fold (\<lambda>i. collect_run (of_nat F) (srt ! i)) [1 ..< n] (zeros, 0, 1, x0)
        = fold (collect_run (of_nat F)) xs
            ([] @ zeros, of_nat (length ([] :: cint list)), of_nat 1, x0)"
    using fold_nth_upt [where f = "collect_run (of_nat F)", of n srt 1 "(zeros, 0, 1, x0)"]
      lsrt lxs
    by (simp add: srt)
  moreover have "fold (collect_run (of_nat F)) xs
                   ([] @ zeros, of_nat (length ([] :: cint list)), of_nat 1, x0)
        = ([] @ modes_with F (butlast (runs_from x0 1 xs))
              @ drop (length (modes_with F (butlast (runs_from x0 1 xs)))) zeros,
           of_nat (length ([] :: cint list)
                   + length (modes_with F (butlast (runs_from x0 1 xs)))),
           of_nat (snd (last (runs_from x0 1 xs))), fst (last (runs_from x0 1 xs)))"
    using lxs n31 F_bound lenR by (intro fold_collect_run) (simp_all add: zeros_def R_def)
  ultimately have p2: "fold (mode_pass2 ?a1 ?a2 (of_nat F)) [1 ..< n] (s4, 0, 1, rd s4 ?a1 0)
        = (s4\<lparr>cells := (?a2, M' @ drop (length M') zeros) # c3\<rparr>, of_nat (length M'), of_nat B, v)"
    by (simp add: M'_def B_def v_def R_def)
  \<comment> \<open>the last run\<close>
  define s5 where "s5 = s4\<lparr>cells := (?a2, M' @ drop (length M') zeros) # c3\<rparr>"
  have cs5: "cells s5 = (?a2, M' @ drop (length M') zeros) # c3"
    by (simp add: s5_def)
  have M: "M = M' @ (if B = F then [v] else [])"
    by (simp only: M_def srt modes_of_sorted_Cons M'_def B_def v_def R_def F_def)
  have last_step:
    "(if (of_nat B :: cint) = of_nat F
      then (wr s5 ?a2 (count_of (of_nat (length M'))) v, (of_nat (length M') :: cint) + 1)
      else (s5, of_nat (length M')))
     = (s6, of_nat (length M))"
  proof (cases "B = F")
    case True
    have "length M' < 2 ^ 31"
      using lenM' n31 by simp
    then have "wr s5 ?a2 (count_of (of_nat (length M'))) v
          = s5\<lparr>cells := (?a2, (M' @ drop (length M') zeros)[length M' := v]) # c3\<rparr>"
      by (subst wr_head [OF cs5]) (simp add: count_of_of_nat)
    also have "\<dots> = s6"
      using True lenM'
      by (simp only: list_update_junk zeros_def s6_def buf_def M s5_def if_True) simp
    finally show ?thesis
      using True by (simp add: M add.commute)
  next
    case False
    then have "(of_nat B :: cint) \<noteq> of_nat F"
      by (simp add: of_nat_cint_eq_iff [OF B_bound F_bound])
    moreover have "s5 = s6"
      using False by (simp add: s5_def s6_def buf_def M)
    ultimately show ?thesis
      using False by (simp add: M)
  qed
  \<comment> \<open>the result\<close>
  have lenM: "length M < 2 ^ 31"
    using length_modes_of_sorted [of srt] lsrt n31 by (simp add: M_def)
  have cs6: "cells s6 = (?a2, buf) # c3"
    by (simp add: s6_def)
  have a3: "fresh s6 = ?a3"
    using keys by (intro fresh_head [OF cs6]) (auto simp: c3_def less_Suc_eq)
  have m3: "malloc s6 (count_of (of_nat (length M))) =
              (if fails (tl (tl (allocs s)))
               then (NULL, s6\<lparr>allocs := tl (tl (tl (allocs s)))\<rparr>) else (?a3, s7))"
  proof -
    have "malloc s6 (length M) =
        (if fails (allocs s6) then (NULL, s6\<lparr>allocs := tl (allocs s6)\<rparr>)
         else (fresh s6, s6\<lparr>cells := (fresh s6, replicate (length M) 0) # cells s6,
                           allocs := tl (allocs s6)\<rparr>))"
      by (rule malloc_cases)
    also have "\<dots> = (if fails (tl (tl (allocs s)))
                      then (NULL, s6\<lparr>allocs := tl (tl (tl (allocs s)))\<rparr>) else (?a3, s7))"
      unfolding a3 by (simp add: s7_def s6_def s4_def)
    finally show ?thesis
      by (simp only: count_of_of_nat [OF lenM])
  qed
  have cs7: "cells s7 = (?a3, replicate (length M) 0) # (?a2, buf) # c3"
    by (simp add: s7_def)
  have "block s7 ?a2 = buf"
    by (simp add: block_def s7_def)
  then have cp3: "memcpy s7 ?a3 ?a2 (count_of (of_nat (length M))) = s8"
    by (subst memcpy_head [OF cs7]) (simp add: count_of_of_nat [OF lenM] buf_def s8_def)
  have fr: "free (free s8 ?a1) ?a2
            = s\<lparr>cells := (?a3, M) # cells s, allocs := tl (tl (tl (allocs s)))\<rparr>"
  proof -
    have "?a2 \<notin> fst ` set (cells s)"
      using keys by fastforce
    then show ?thesis
      using fresh_not_allocated [of s]
      by (simp add: free_def s8_def s7_def s6_def s4_def s3_def s1_def c3_def)
  qed
  have fr2: "free (s3\<lparr>allocs := tl (tl (allocs s))\<rparr>) ?a1 = s\<lparr>allocs := tl (tl (allocs s))\<rparr>"
    using fresh_not_allocated [of s] by (simp add: free_def s3_def s1_def)
  have fr3: "free (free (s6\<lparr>allocs := tl (tl (tl (allocs s)))\<rparr>) ?a1) ?a2
             = s\<lparr>allocs := tl (tl (tl (allocs s)))\<rparr>"
  proof -
    have "?a2 \<notin> fst ` set (cells s)"
      using keys by fastforce
    then show ?thesis
      using fresh_not_allocated [of s]
      by (simp add: free_def s6_def s4_def s3_def s1_def c3_def)
  qed
  have "calculate_mode s arr sz =
         (if fails (allocs s)
          then (\<lparr>modes = NULL, count = 0, frequency = 0\<rparr>,
                fprintf_stderr (s\<lparr>allocs := tl (allocs s)\<rparr>)
                  (''Memory allocation failed in calculate_mode'' @ [CHR 0x0A]))
          else if fails (tl (allocs s))
          then (\<lparr>modes = NULL, count = 0, frequency = 0\<rparr>, s\<lparr>allocs := tl (tl (allocs s))\<rparr>)
          else if fails (tl (tl (allocs s)))
          then (\<lparr>modes = NULL, count = 0, frequency = 0\<rparr>,
                s\<lparr>allocs := tl (tl (tl (allocs s)))\<rparr>)
          else
         (\<lparr>modes = ?a3, count = of_nat (length M), frequency = of_nat F\<rparr>,
          s\<lparr>cells := (?a3, M) # cells s, allocs := tl (tl (tl (allocs s)))\<rparr>))"
  proof (cases "fails (allocs s)")
    case True
    then show ?thesis
      using assms(2) by (simp add: calculate_mode_def n_def [symmetric] m1 Let_def)
  next
    case f1: False
    show ?thesis
    proof (cases "fails (tl (allocs s))")
      case True
      then show ?thesis
        using assms(2) fresh_not_NULL [of s] f1
        by (simp add: calculate_mode_def n_def [symmetric] m1 cp qs p1 maxf m2 fr2 NULL_def
            Let_def del: fold_simps One_nat_def)
    next
      case f2: False
      show ?thesis
      proof (cases "fails (tl (tl (allocs s)))")
        case True
        then show ?thesis
          using assms(2) fresh_not_NULL [of s] f1 f2
          by (simp add: calculate_mode_def n_def [symmetric] m1 cp qs p1 maxf m2 p2
              s5_def [symmetric] last_step m3 fr3 NULL_def Let_def del: fold_simps One_nat_def)
      next
        case False
        then show ?thesis
          using assms(2) fresh_not_NULL [of s] f1 f2
          by (simp add: calculate_mode_def n_def [symmetric] m1 cp qs p1 maxf m2 p2
              s5_def [symmetric] last_step m3 cp3 fr NULL_def Let_def
              del: fold_simps One_nat_def)
      qed
    qed
  qed
  then show ?thesis
    by (simp only: M_def F_def srt_def)
qed

lemma calculate_mode_eq:
  assumes "valid_sample s arr sz" and "no_oom s" and "sz \<noteq> 0"
  shows "calculate_mode s arr sz =
         (\<lparr>modes = Suc (Suc (fresh s)),
           count = of_nat (length (modes_of_sorted (qsort_list compare (sample s arr sz)))),
           frequency = of_nat (max_run (qsort_list compare (sample s arr sz)))\<rparr>,
          s\<lparr>cells := (Suc (Suc (fresh s)),
                      modes_of_sorted (qsort_list compare (sample s arr sz))) # cells s,
            allocs := tl (tl (tl (allocs s)))\<rparr>)"
  using calculate_mode_cases [OF assms(1,3)] no_oom_not_fails [OF assms(2)] by simp

section \<open>Runs of a sorted list\<close>

lemma sorted_sint_not_mem:
  assumes "sorted (map sint (x # xs))" and "sint v < sint x"
  shows "v \<notin> set (x # xs)"
proof
  assume "v \<in> set (x # xs)"
  then have "sint x \<le> sint v"
    using assms(1) by auto
  then show False using assms(2) by simp
qed

lemma runs_from_sorted:
  assumes "sorted (map sint (v # xs))"
  shows "runs_from v c xs =
         map (\<lambda>w. (w, count_list xs w + (if w = v then c else 0))) (remdups_adj (v # xs))"
  using assms
proof (induction xs arbitrary: v c)
  case Nil
  show ?case by simp
next
  case (Cons x xs)
  have sx: "sorted (map sint (x # xs))"
    using Cons.prems by simp
  show ?case
  proof (cases "x = v")
    case True
    have "runs_from v (c + 1) xs =
          map (\<lambda>w. (w, count_list xs w + (if w = v then c + 1 else 0))) (remdups_adj (v # xs))"
      using sx True by (intro Cons.IH) simp
    moreover have "(\<lambda>w. (w, count_list xs w + (if w = v then c + 1 else 0)))
                 = (\<lambda>w. (w, count_list (x # xs) w + (if w = v then c else 0)))"
      using True by (auto simp: fun_eq_iff)
    ultimately show ?thesis
      using True by simp
  next
    case False
    have "sint v \<le> sint x"
      using Cons.prems by simp
    moreover have "sint v \<noteq> sint x"
      using False by (auto dest: signed_word_eqI)
    ultimately have lt: "sint v < sint x"
      by simp
    have notin: "v \<notin> set (x # xs)"
      using sx lt by (rule sorted_sint_not_mem)
    have "runs_from x 1 xs =
          map (\<lambda>w. (w, count_list xs w + (if w = x then 1 else 0))) (remdups_adj (x # xs))"
      using sx by (rule Cons.IH)
    also have "\<dots> = map (\<lambda>w. (w, count_list (x # xs) w + (if w = v then c else 0)))
                        (remdups_adj (x # xs))"
    proof (rule map_cong [OF refl])
      fix w
      assume "w \<in> set (remdups_adj (x # xs))"
      then have "w \<noteq> v"
        using notin by auto
      then show "(w, count_list xs w + (if w = x then 1 else 0))
                 = (w, count_list (x # xs) w + (if w = v then c else 0))"
        by simp
    qed
    finally have "runs_from x 1 xs =
        map (\<lambda>w. (w, count_list (x # xs) w + (if w = v then c else 0))) (remdups_adj (x # xs))" .
    moreover have "count_list (x # xs) v = 0"
      using notin by (rule count_notin)
    ultimately show ?thesis
      using False by (simp del: count_list.simps)
  qed
qed

lemma runs_sorted:
  assumes "sorted (map sint srt)"
  shows "runs srt = map (\<lambda>w. (w, count_list srt w)) (remdups_adj srt)"
proof (cases srt)
  case Nil
  then show ?thesis by (simp add: runs_def)
next
  case (Cons x xs)
  have "(\<lambda>w. (w, count_list xs w + (if w = x then 1 else 0))) = (\<lambda>w. (w, count_list (x # xs) w))"
    by (auto simp: fun_eq_iff)
  then show ?thesis
    using runs_from_sorted [of x xs 1] assms by (simp add: Cons runs_Cons del: count_list.simps)
qed

lemma max_run_sorted:
  assumes "sorted (map sint srt)" and "srt \<noteq> []"
  shows "max_run srt = Max (count_list srt ` set srt)"
proof -
  have "max_run srt = Max (insert 0 (count_list srt ` set srt))"
    using assms(1) by (simp add: max_run_def runs_sorted fold_max_eq_Max image_image comp_def)
  also have "\<dots> = Max (count_list srt ` set srt)"
    using assms(2) by simp
  finally show ?thesis .
qed

lemma modes_of_sorted_eq:
  assumes "sorted (map sint srt)"
  shows "modes_of_sorted srt = filter (\<lambda>w. count_list srt w = max_run srt) (remdups_adj srt)"
  using assms
  by (simp add: modes_of_sorted_def modes_with_def runs_sorted filter_map comp_def)

lemma strict_sorted_remdups_adj:
  "sorted (xs :: int list) \<Longrightarrow> sorted_wrt (<) (remdups_adj xs)"
proof (induction xs rule: remdups_adj.induct)
  case 1
  show ?case by simp
next
  case (2 x)
  show ?case by simp
next
  case (3 x y xs)
  show ?case
  proof (cases "x = y")
    case True
    then show ?thesis using 3 by simp
  next
    case False
    then have "x < y" using "3.prems" by simp
    moreover have "\<forall>z\<in>set xs. y \<le> z" using "3.prems" by simp
    ultimately have "\<forall>z\<in>set (y # xs). x < z" by auto
    then show ?thesis
      using False 3 by simp
  qed
qed

lemma strictly_ascending_remdups_adj:
  assumes "sorted (map sint srt)"
  shows "sorted_wrt (<) (map sint (remdups_adj srt))"
proof -
  have "inj (sint :: cint \<Rightarrow> int)"
    by (rule injI) (rule signed_word_eqI)
  then have "map sint (remdups_adj srt) = remdups_adj (map sint srt)"
    by (simp add: remdups_adj_map_injective)
  then show ?thesis
    using strict_sorted_remdups_adj [OF assms] by simp
qed

lemma modes_of_sorted_ascending:
  assumes "sorted (map sint srt)"
  shows "sorted_wrt (<) (map sint (modes_of_sorted srt))"
proof -
  have "sorted_wrt (\<lambda>a b. sint a < sint b) (remdups_adj srt)"
    using strictly_ascending_remdups_adj [OF assms] by (simp add: sorted_wrt_map)
  then have "sorted_wrt (\<lambda>a b. sint a < sint b)
               (filter (\<lambda>w. count_list srt w = max_run srt) (remdups_adj srt))"
    by (rule sorted_wrt_filter)
  then show ?thesis
    by (simp add: modes_of_sorted_eq [OF assms] sorted_wrt_map)
qed

lemma set_modes_of_sorted:
  assumes "sorted (map sint srt)"
  shows "set (modes_of_sorted srt) = {w \<in> set srt. count_list srt w = max_run srt}"
  by (simp add: modes_of_sorted_eq [OF assms])

lemma count_list_mset_cong: "mset xs = mset ys \<Longrightarrow> count_list xs = count_list ys"
  by (metis count_mset ext)

section \<open>The sorted copy\<close>

lemma sorted_copy_state:
  assumes "valid_sample s arr sz" and "no_oom s"
  shows "(case malloc s (count_of sz) of (sorted_arr, s1) \<Rightarrow>
            qsort (memcpy s1 sorted_arr arr (count_of sz)) sorted_arr (count_of sz) compare)
         = s\<lparr>cells := (fresh s, qsort_list compare (sample s arr sz)) # cells s,
             allocs := tl (allocs s)\<rparr>"
proof -
  let ?n = "count_of sz"
  let ?p = "fresh s"
  define s1 where "s1 = s\<lparr>cells := (?p, replicate ?n 0) # cells s, allocs := tl (allocs s)\<rparr>"
  define s2 where "s2 = s1\<lparr>cells := (?p, sample s arr sz) # cells s\<rparr>"
  have m: "malloc s ?n = (?p, s1)"
    using assms(2) by (simp add: malloc_ok s1_def)
  have c1: "cells s1 = (?p, replicate ?n 0) # cells s"
    by (simp add: s1_def)
  have "take ?n (block s1 arr) = sample s arr sz"
  proof (cases "sz = 0")
    case True
    then show ?thesis by (simp add: sample_def count_of_def)
  next
    case False
    have "arr \<noteq> ?p"
      using valid_sample_allocated [OF assms(1) False] fresh_not_allocated [of s] by blast
    then show ?thesis
      by (simp add: block_def s1_def sample_def)
  qed
  then have cp: "memcpy s1 ?p arr ?n = s2"
    by (subst memcpy_head [OF c1]) (simp add: s2_def)
  have c2: "cells s2 = (?p, sample s arr sz) # cells s"
    by (simp add: s2_def)
  have len: "length (sample s arr sz) = ?n"
    using assms(1) by (rule length_sample)
  have "qsort s2 ?p ?n compare
        = s\<lparr>cells := (?p, qsort_list compare (sample s arr sz)) # cells s,
            allocs := tl (allocs s)\<rparr>"
    by (subst qsort_head [OF c2]) (simp add: len s2_def s1_def)
  then show ?thesis
    by (simp add: m cp)
qed

lemma sint_INT_MIN: "sint INT_MIN = - (2 ^ 31)"
  by (simp add: INT_MIN_def)

lemma sint_INT_MAX: "sint INT_MAX = 2 ^ 31 - 1"
  by (simp add: INT_MAX_def)

lemma compare_INT_MIN_1: "sint (compare INT_MIN 1) = 2 ^ 31 - 1"
  by (simp add: compare_def INT_MIN_def)

section \<open>The caller's array\<close>

lemma calculate_mean_cong:
  "block s' arr = block s arr \<Longrightarrow> calculate_mean s' arr sz = calculate_mean s arr sz"
  by (simp add: calculate_mean_def mean_loop_def rd_def)

lemma sample_cong: "block s' arr = block s arr \<Longrightarrow> sample s' arr sz = sample s arr sz"
  by (simp add: sample_def)

lemma valid_sample_cong:
  "block s' arr = block s arr \<Longrightarrow> valid_sample s' arr sz = valid_sample s arr sz"
  by (simp add: valid_sample_def)

lemma no_oom_allocs_tl: "no_oom s \<Longrightarrow> allocs s' = tl (allocs s) \<Longrightarrow> no_oom s'"
  using no_oom_tlD [of s] by (simp add: no_oom_def)

lemma no_oom_allocs_tl3: "no_oom s \<Longrightarrow> allocs s' = tl (tl (tl (allocs s))) \<Longrightarrow> no_oom s'"
  by (cases "allocs s"; cases "tl (allocs s)"; cases "tl (tl (allocs s))") (auto simp: no_oom_def)

lemma calculate_median_frame:
  assumes "valid_sample s arr sz" and "no_oom s"
  shows "cells (snd (calculate_median s arr sz)) = cells s"
    and "stdout (snd (calculate_median s arr sz)) = stdout s"
    and "stderr (snd (calculate_median s arr sz)) = stderr s"
    and "no_oom (snd (calculate_median s arr sz))"
    and "fst (calculate_median s arr sz) =
           (if sz = 0 then 0 else median_of_sorted (qsort_list compare (sample s arr sz)))"
proof -
  have eq: "calculate_median s arr sz =
        (if sz = 0 then (0, s)
         else (median_of_sorted (qsort_list compare (sample s arr sz)), s\<lparr>allocs := tl (allocs s)\<rparr>))"
    using calculate_median_eq [OF assms] by (simp add: calculate_median_def)
  show "cells (snd (calculate_median s arr sz)) = cells s"
    and "stdout (snd (calculate_median s arr sz)) = stdout s"
    and "stderr (snd (calculate_median s arr sz)) = stderr s"
    and "fst (calculate_median s arr sz) =
           (if sz = 0 then 0 else median_of_sorted (qsort_list compare (sample s arr sz)))"
    by (simp_all add: eq)
  show "no_oom (snd (calculate_median s arr sz))"
    using assms(2) no_oom_tl [OF assms(2)] by (simp add: eq)
qed

lemma calculate_mode_frame:
  assumes "valid_sample s arr sz" and "no_oom s"
  shows "\<forall>p\<in>fst ` set (cells s). block (snd (calculate_mode s arr sz)) p = block s p"
    and "block (snd (calculate_mode s arr sz)) arr = block s arr"
    and "stdout (snd (calculate_mode s arr sz)) = stdout s"
    and "stderr (snd (calculate_mode s arr sz)) = stderr s"
    and "no_oom (snd (calculate_mode s arr sz))"
    and "mode_values (calculate_mode s arr sz) =
           (if sz = 0 then [] else modes_of_sorted (qsort_list compare (sample s arr sz)))"
    and "frequency (fst (calculate_mode s arr sz)) =
           (if sz = 0 then 0 else of_nat (max_run (qsort_list compare (sample s arr sz))))"
    and "count (fst (calculate_mode s arr sz)) = of_nat (length (mode_values (calculate_mode s arr sz)))"
proof -
  let ?M = "modes_of_sorted (qsort_list compare (sample s arr sz))"
  let ?F = "max_run (qsort_list compare (sample s arr sz))"
  let ?a3 = "Suc (Suc (fresh s))"
  have eq: "calculate_mode s arr sz =
        (if sz = 0 then (\<lparr>modes = NULL, count = 0, frequency = 0\<rparr>, s)
         else (\<lparr>modes = ?a3, count = of_nat (length ?M), frequency = of_nat ?F\<rparr>,
               s\<lparr>cells := (?a3, ?M) # cells s, allocs := tl (tl (tl (allocs s)))\<rparr>))"
    using calculate_mode_eq [OF assms] by (simp add: calculate_mode_def)
  have new: "p \<noteq> ?a3" if "p \<in> fst ` set (cells s)" for p
    using fresh_greater [OF that] by simp
  have lenM: "length ?M < 2 ^ 31"
  proof -
    have "length ?M \<le> length (sample s arr sz)"
      using length_modes_of_sorted [of "qsort_list compare (sample s arr sz)"]
      by (simp add: length_qsort_list)
    then show ?thesis
      using count_of_less [of sz] by (simp add: length_sample [OF assms(1)])
  qed
  show "\<forall>p\<in>fst ` set (cells s). block (snd (calculate_mode s arr sz)) p = block s p"
    using new by (auto simp: eq block_def)
  show "block (snd (calculate_mode s arr sz)) arr = block s arr"
  proof (cases "sz = 0")
    case True
    then show ?thesis by (simp add: calculate_mode_def)
  next
    case False
    then show ?thesis
      using new [OF valid_sample_allocated [OF assms(1) False]] by (simp add: eq block_def)
  qed
  show "stdout (snd (calculate_mode s arr sz)) = stdout s"
    and "stderr (snd (calculate_mode s arr sz)) = stderr s"
    and "frequency (fst (calculate_mode s arr sz)) = (if sz = 0 then 0 else of_nat ?F)"
    by (simp_all add: eq)
  show "no_oom (snd (calculate_mode s arr sz))"
    using assms(2) no_oom_allocs_tl3 [OF assms(2)] by (simp add: eq)
  show mv: "mode_values (calculate_mode s arr sz) = (if sz = 0 then [] else ?M)"
  proof (cases "sz = 0")
    case True
    then show ?thesis
      by (simp add: calculate_mode_def mode_values_def count_of_def)
  next
    case False
    then show ?thesis
      using lenM by (simp add: eq mode_values_def block_def count_of_of_nat)
  qed
  show "count (fst (calculate_mode s arr sz)) = of_nat (length (mode_values (calculate_mode s arr sz)))"
    unfolding mv by (simp add: eq)
qed

section \<open>The mean in double arithmetic\<close>

lemma bit_length_le: "n < 2 ^ m \<Longrightarrow> bit_length n \<le> m"
proof (induction m arbitrary: n)
  case 0
  then have "n = 0" by simp
  then show ?case by (subst bit_length.simps) simp
next
  case (Suc m)
  show ?case
  proof (cases "n = 0")
    case True
    then show ?thesis by (subst bit_length.simps) simp
  next
    case False
    have "n div 2 < 2 ^ m"
      using Suc.prems by simp
    then have "bit_length (n div 2) \<le> m"
      by (rule Suc.IH)
    then show ?thesis
      using False by (subst bit_length.simps) simp
  qed
qed

lemma round_half_even_exact: "0 < q \<Longrightarrow> round_half_even (k * q) q = k"
  by (simp add: round_half_even_def)

lemma double_of_long_exact:
  assumes "\<bar>k\<bar> \<le> 2 ^ 53"
  shows "double_of_long k = k"
proof (cases "\<bar>k\<bar> < 2 ^ 53")
  case True
  then have "nat \<bar>k\<bar> < 2 ^ 53"
    by (simp add: nat_less_iff)
  then have "bit_length (nat \<bar>k\<bar>) \<le> 53"
    by (rule bit_length_le)
  then show ?thesis
    by (simp add: double_of_long_def)
next
  case False
  then have "\<bar>k\<bar> = 2 ^ 53" using assms by simp
  then consider "k = 2 ^ 53" | "k = - (2 ^ 53)"
    by (cases "0 \<le> k") simp_all
  moreover have "double_of_long (2 ^ 53) = 2 ^ 53"
    by (simp add: double_of_long_def bit_length.simps round_half_even_def)
  moreover have "double_of_long (- (2 ^ 53)) = - (2 ^ 53)"
    by (simp add: double_of_long_def bit_length.simps round_half_even_def)
  ultimately show ?thesis
    by cases (simp_all only:)
qed

lemma calculate_mean_eq:
  assumes "valid_sample s arr sz" and "sample s arr sz \<noteq> []"
  shows "calculate_mean s arr sz =
         double_of_quotient (double_of_long (sum_list (map sint (sample s arr sz))))
           (int (length (sample s arr sz)))"
proof -
  have nz: "sz \<noteq> 0"
    using assms(2) by (auto simp: sample_def count_of_def)
  have "0 \<le> sint sz"
    using assms(1) by (simp add: valid_sample_def)
  then have "sint sz = int (count_of sz)"
    by (simp add: count_of_def)
  moreover have "sint (mean_loop s arr (count_of sz)) = sum_list (map sint (sample s arr sz))"
    using mean_loop_exact [OF assms(1), of "count_of sz"] length_sample [OF assms(1)] by simp
  ultimately show ?thesis
    using nz length_sample [OF assms(1)] by (simp add: calculate_mean_def)
qed

lemma calculate_mean_replicate:
  assumes "0 < n" and "n < 2 ^ 31"
  shows "calculate_mean (caller_state p (replicate n x)) p (of_nat n) =
         double_of_quotient (double_of_long (int n * sint x)) (int n)"
proof -
  have c: "count_of (of_nat n) = n"
    using assms(2) by (rule count_of_of_nat)
  have "0 \<le> sint (of_nat n :: cint)"
    using assms(2) by (simp add: sint_of_nat_cint)
  then have v: "valid_sample (caller_state p (replicate n x)) p (of_nat n)"
    by (rule valid_caller_state) (simp add: c)
  have s: "sample (caller_state p (replicate n x)) p (of_nat n) = replicate n x"
    by (simp add: sample_caller_state c)
  have "sample (caller_state p (replicate n x)) p (of_nat n) \<noteq> []"
    using assms(1) by (simp add: s)
  from calculate_mean_eq [OF v this] show ?thesis
    by (simp add: s sum_list_replicate map_replicate)
qed


lemma mean_of_replicate:
  assumes "0 < n" and "n < 2 ^ 31" and "(of_nat n :: cint) = sz"
  shows "calculate_mean (caller_state p (replicate n x)) p sz =
           double_of_quotient (double_of_long (int n * sint x)) (int n)"
    and "sum_list (map sint (sample (caller_state p (replicate n x)) p sz)) = int n * sint x"
    and "length (sample (caller_state p (replicate n x)) p sz) = n"
proof -
  have c: "count_of (of_nat n) = n"
    using assms(2) by (rule count_of_of_nat)
  have s: "sample (caller_state p (replicate n x)) p (of_nat n) = replicate n x"
    by (simp add: sample_caller_state c)
  show "calculate_mean (caller_state p (replicate n x)) p sz =
           double_of_quotient (double_of_long (int n * sint x)) (int n)"
    using calculate_mean_replicate [OF assms(1,2), of p x] by (simp only: assms(3))
  show "sum_list (map sint (sample (caller_state p (replicate n x)) p sz)) = int n * sint x"
    using s by (simp add: assms(3) [symmetric] sum_list_replicate map_replicate)
  show "length (sample (caller_state p (replicate n x)) p sz) = n"
    using s by (simp add: assms(3) [symmetric])
qed

lemma sint_INT_MAX': "sint INT_MAX = 2147483647"
  by (simp add: INT_MAX_def)

text \<open>
  Claim C3, as stated, fails. For \<open>2 ^ 22 + 1\<close> elements \<^verbatim>\<open>INT_MAX\<close> the sum is
  9007201398030335, of 54 binary digits, and the conversion to double rounds it to
  9007201398030336; the division by the length then returns
  \<open>2147483647 + 2 ^ - 22\<close>, where the quotient of the sum by the length is 2147483647,
  a double.
\<close>

theorem mean_of_long_sum_counterexample:
  "calculate_mean (caller_state 8 (replicate 4194305 INT_MAX)) 8 4194305
     = 9007199250546689 / 4194304 \<and>
   sum_list (map sint (sample (caller_state 8 (replicate 4194305 INT_MAX)) 8 4194305))
     = 9007201398030335 \<and>
   length (sample (caller_state 8 (replicate 4194305 INT_MAX)) 8 4194305) = 4194305 \<and>
   double_of_quotient 9007201398030335 4194305 = 2147483647 \<and>
   calculate_mean (caller_state 8 (replicate 4194305 INT_MAX)) 8 4194305
     \<noteq> double_of_quotient
          (sum_list (map sint (sample (caller_state 8 (replicate 4194305 INT_MAX)) 8 4194305)))
          (int (length (sample (caller_state 8 (replicate 4194305 INT_MAX)) 8 4194305)))"
proof -
  have n: "(0::nat) < 4194305" "(4194305::nat) < 2 ^ 31" "(of_nat 4194305 :: cint) = 4194305"
    by simp_all
  note m = mean_of_replicate [OF n, of 8 INT_MAX]
  have a: "calculate_mean (caller_state 8 (replicate 4194305 INT_MAX)) 8 4194305
           = 9007199250546689 / 4194304"
    unfolding m(1)
    by (simp add: sint_INT_MAX' double_of_long_def double_of_quotient_def bit_length.simps
        round_half_even_def)
  have b: "sum_list (map sint (sample (caller_state 8 (replicate 4194305 INT_MAX)) 8 4194305))
           = 9007201398030335"
    unfolding m(2) by (simp add: sint_INT_MAX')
  have c: "double_of_quotient 9007201398030335 4194305 = 2147483647"
    by (simp add: double_of_quotient_def bit_length.simps round_half_even_def)
  show ?thesis
    unfolding a b m(3) using c by simp
qed

text \<open>
  Claim C3, amended. For every non-empty sample, \<open>calculate_mean\<close> returns the sum of
  the elements, converted to double, divided by the length in double arithmetic: the
  conversion rounds the sum to 53 binary digits, and the division rounds the quotient to
  the nearest double. When the sum is at most \<open>2 ^ 53\<close> in absolute value the conversion
  is exact, and the mean returned is the double nearest to the sum divided by the length:
  exact up to the rounding of the division.
\<close>

theorem mean_is_rounded_sum_over_length:
  assumes "valid_sample s arr sz" and "sample s arr sz \<noteq> []"
  shows "calculate_mean s arr sz =
           double_of_quotient (double_of_long (sum_list (map sint (sample s arr sz))))
             (int (length (sample s arr sz))) \<and>
         (\<bar>sum_list (map sint (sample s arr sz))\<bar> \<le> 2 ^ 53 \<longrightarrow>
          calculate_mean s arr sz =
            double_of_quotient (sum_list (map sint (sample s arr sz)))
              (int (length (sample s arr sz))))"
  using calculate_mean_eq [OF assms] by (simp add: double_of_long_exact)

text \<open>The first array of \<^verbatim>\<open>main\<close>: the sum is 25, the mean the double nearest to \<open>25 / 7\<close>.\<close>

theorem mean_is_rounded_sum_over_length_witness:
  "valid_sample (caller_state 8 [1, 2, 3, 4, 5, 5, 5]) 8 7 \<and>
   sample (caller_state 8 [1, 2, 3, 4, 5, 5, 5]) 8 7 = [1, 2, 3, 4, 5, 5, 5] \<and>
   \<bar>sum_list (map sint (sample (caller_state 8 [1, 2, 3, 4, 5, 5, 5]) 8 7))\<bar> \<le> 2 ^ 53 \<and>
   calculate_mean (caller_state 8 [1, 2, 3, 4, 5, 5, 5]) 8 7
     = 8042142191733029 / 2251799813685248"
proof -
  have v: "valid_sample (caller_state 8 [1, 2, 3, 4, 5, 5, 5]) 8 7"
    by (simp add: valid_caller_state count_of_def)
  have s: "sample (caller_state 8 [1, 2, 3, 4, 5, 5, 5]) 8 7 = [1, 2, 3, 4, 5, 5, 5]"
    by (simp add: sample_caller_state count_of_def)
  have ne: "sample (caller_state 8 [1, 2, 3, 4, 5, 5, 5]) 8 7 \<noteq> []"
    by (simp add: s)
  have q: "double_of_quotient 25 7 = 8042142191733029 / 2251799813685248"
    by (simp add: double_of_quotient_def bit_length.simps round_half_even_def)
  from mean_is_rounded_sum_over_length [OF v ne] v s q show ?thesis
    by (simp add: s)
qed

text \<open>
  Claim C7, as stated, fails. For \<open>2 ^ 22 + 3\<close> elements \<^verbatim>\<open>INT_MAX\<close> the accumulator
  holds the sum 9007205692997629 exactly, but the mean returned is
  \<open>2147483647 - 2 ^ - 22\<close> and not the sum divided by the length, 2147483647: the
  conversion of the sum to double has rounded it to 9007205692997628.
\<close>

theorem mean_accumulator_counterexample:
  "sum_list (map sint (sample (caller_state 8 (replicate 4194307 INT_MAX)) 8 4194307))
     = 9007205692997629 \<and>
   length (sample (caller_state 8 (replicate 4194307 INT_MAX)) 8 4194307) = 4194307 \<and>
   double_of_long 9007205692997629 = 9007205692997628 \<and>
   calculate_mean (caller_state 8 (replicate 4194307 INT_MAX)) 8 4194307
     = 9007199250546687 / 4194304 \<and>
   calculate_mean (caller_state 8 (replicate 4194307 INT_MAX)) 8 4194307
     \<noteq> real_of_int
          (sum_list (map sint (sample (caller_state 8 (replicate 4194307 INT_MAX)) 8 4194307)))
        / real (length (sample (caller_state 8 (replicate 4194307 INT_MAX)) 8 4194307))"
proof -
  have n: "(0::nat) < 4194307" "(4194307::nat) < 2 ^ 31" "(of_nat 4194307 :: cint) = 4194307"
    by simp_all
  note m = mean_of_replicate [OF n, of 8 INT_MAX]
  have a: "calculate_mean (caller_state 8 (replicate 4194307 INT_MAX)) 8 4194307
           = 9007199250546687 / 4194304"
    unfolding m(1)
    by (simp add: sint_INT_MAX' double_of_long_def double_of_quotient_def bit_length.simps
        round_half_even_def)
  have b: "sum_list (map sint (sample (caller_state 8 (replicate 4194307 INT_MAX)) 8 4194307))
           = 9007205692997629"
    unfolding m(2) by (simp add: sint_INT_MAX')
  have c: "double_of_long 9007205692997629 = 9007205692997628"
    by (simp add: double_of_long_def bit_length.simps round_half_even_def)
  show ?thesis
    unfolding a b m(3) using c by simp
qed

text \<open>
  Claim C7, amended. The sum is accumulated in a 64-bit signed integer before the
  conversion to double. For every sample whose sum fits in 64 bits (as every sample of
  fewer than \<open>2 ^ 31\<close> elements of 32 bits does), the accumulator holds the exact sum of
  the elements read so far after each iteration, so no addition overflows. The mean
  returned is that sum, converted to double, divided by the length in double arithmetic;
  when the sum is at most \<open>2 ^ 53\<close> in absolute value it is the double nearest to the sum
  divided by the length.
\<close>

theorem mean_accumulator_exact:
  assumes "valid_sample s arr sz" and "sample s arr sz \<noteq> []"
    and "- (2 ^ 63) \<le> sum_list (map sint (sample s arr sz))"
    and "sum_list (map sint (sample s arr sz)) < 2 ^ 63"
  shows "(\<forall>k \<le> count_of sz.
            sint (mean_loop s arr k) = sum_list (map sint (take k (sample s arr sz)))) \<and>
         calculate_mean s arr sz =
           double_of_quotient (double_of_long (sum_list (map sint (sample s arr sz))))
             (int (length (sample s arr sz))) \<and>
         (\<bar>sum_list (map sint (sample s arr sz))\<bar> \<le> 2 ^ 53 \<longrightarrow>
          calculate_mean s arr sz =
            double_of_quotient (sum_list (map sint (sample s arr sz)))
              (int (length (sample s arr sz))))"
  using assms(1,2) calculate_mean_eq [OF assms(1,2)]
  by (simp add: mean_loop_exact double_of_long_exact)

text \<open>A sum beyond 32 bits: \<open>INT_MAX + INT_MAX + 1 = 4294967295\<close>, a third of which is a double.\<close>

theorem mean_accumulator_exact_witness:
  "valid_sample (caller_state 8 [INT_MAX, INT_MAX, 1]) 8 3 \<and>
   sample (caller_state 8 [INT_MAX, INT_MAX, 1]) 8 3 = [INT_MAX, INT_MAX, 1] \<and>
   sum_list (map sint (sample (caller_state 8 [INT_MAX, INT_MAX, 1]) 8 3)) = 4294967295 \<and>
   sint (mean_loop (caller_state 8 [INT_MAX, INT_MAX, 1]) 8 2) = 4294967294 \<and>
   calculate_mean (caller_state 8 [INT_MAX, INT_MAX, 1]) 8 3 = 1431655765"
proof -
  have v: "valid_sample (caller_state 8 [INT_MAX, INT_MAX, 1]) 8 3"
    by (simp add: valid_caller_state count_of_def)
  have s: "sample (caller_state 8 [INT_MAX, INT_MAX, 1]) 8 3 = [INT_MAX, INT_MAX, 1]"
    by (simp add: sample_caller_state count_of_def)
  have ne: "sample (caller_state 8 [INT_MAX, INT_MAX, 1]) 8 3 \<noteq> []"
    by (simp add: s)
  have c: "count_of 3 = 3" by (simp add: count_of_def)
  have q: "double_of_quotient 4294967295 3 = 1431655765"
    by (simp add: double_of_quotient_def bit_length.simps round_half_even_def)
  have "(2::nat) \<le> 3" by simp
  with mean_accumulator_exact [OF v ne] v s c q show ?thesis
    by (simp add: s sint_INT_MAX')
qed

section \<open>Every allocation outcome\<close>

lemma calculate_median_all:
  assumes "valid_sample s arr sz"
  shows "calculate_median s arr sz =
         (if sz = 0 then (0, s)
          else if fails (allocs s)
          then (0, fprintf_stderr (s\<lparr>allocs := tl (allocs s)\<rparr>)
                     (''Memory allocation failed'' @ [CHR 0x0A]))
          else (median_of_sorted (qsort_list compare (sample s arr sz)),
                s\<lparr>allocs := tl (allocs s)\<rparr>))"
proof (cases "sz = 0")
  case True
  then show ?thesis by (simp add: calculate_median_def)
next
  case False
  then show ?thesis
    using calculate_median_cases [OF assms False] by simp
qed

lemma calculate_mode_all:
  assumes "valid_sample s arr sz"
  shows "calculate_mode s arr sz =
         (if sz = 0 then (\<lparr>modes = NULL, count = 0, frequency = 0\<rparr>, s)
          else if fails (allocs s)
          then (\<lparr>modes = NULL, count = 0, frequency = 0\<rparr>,
                fprintf_stderr (s\<lparr>allocs := tl (allocs s)\<rparr>)
                  (''Memory allocation failed in calculate_mode'' @ [CHR 0x0A]))
          else if fails (tl (allocs s))
          then (\<lparr>modes = NULL, count = 0, frequency = 0\<rparr>, s\<lparr>allocs := tl (tl (allocs s))\<rparr>)
          else if fails (tl (tl (allocs s)))
          then (\<lparr>modes = NULL, count = 0, frequency = 0\<rparr>,
                s\<lparr>allocs := tl (tl (tl (allocs s)))\<rparr>)
          else
            (\<lparr>modes = Suc (Suc (fresh s)),
              count = of_nat (length (modes_of_sorted (qsort_list compare (sample s arr sz)))),
              frequency = of_nat (max_run (qsort_list compare (sample s arr sz)))\<rparr>,
             s\<lparr>cells := (Suc (Suc (fresh s)),
                         modes_of_sorted (qsort_list compare (sample s arr sz))) # cells s,
               allocs := tl (tl (tl (allocs s)))\<rparr>))"
proof (cases "sz = 0")
  case True
  then show ?thesis by (simp add: calculate_mode_def)
next
  case False
  then show ?thesis
    using calculate_mode_cases [OF assms False] by simp
qed

lemma calculate_median_unchanged:
  assumes "valid_sample s arr sz"
  shows "cells (snd (calculate_median s arr sz)) = cells s"
    and "stdout (snd (calculate_median s arr sz)) = stdout s"
  by (simp_all add: calculate_median_all [OF assms] fprintf_stderr_def)

lemma calculate_mode_unchanged:
  assumes "valid_sample s arr sz"
  shows "\<forall>p\<in>fst ` set (cells s). block (snd (calculate_mode s arr sz)) p = block s p"
    and "block (snd (calculate_mode s arr sz)) arr = block s arr"
    and "stdout (snd (calculate_mode s arr sz)) = stdout s"
proof -
  have new: "p \<noteq> Suc (Suc (fresh s))" if "p \<in> fst ` set (cells s)" for p
    using fresh_greater [OF that] by simp
  show "\<forall>p\<in>fst ` set (cells s). block (snd (calculate_mode s arr sz)) p = block s p"
    using new by (auto simp: calculate_mode_all [OF assms] fprintf_stderr_def block_def)
  show "block (snd (calculate_mode s arr sz)) arr = block s arr"
  proof (cases "sz = 0")
    case True
    then show ?thesis by (simp add: calculate_mode_def)
  next
    case False
    then show ?thesis
      using new [OF valid_sample_allocated [OF assms False]]
      by (simp add: calculate_mode_all [OF assms] fprintf_stderr_def block_def)
  qed
  show "stdout (snd (calculate_mode s arr sz)) = stdout s"
    by (simp add: calculate_mode_all [OF assms] fprintf_stderr_def)
qed

text \<open>
  Claim C8, as stated, fails: a second call need not return what the first one
  returned. On \<^verbatim>\<open>{2, 1, 2, 1}\<close>, when the allocation of the first call succeeds and
  that of the second fails, \<open>calculate_median\<close> returns 1.5 and then 0.0, on the same
  array.
\<close>

theorem repeated_call_counterexample:
  "fst (calculate_median (caller_state 8 [2, 1, 2, 1]\<lparr>allocs := [True, False]\<rparr>) 8 4) = 3 / 2 \<and>
   sample (snd (calculate_median (caller_state 8 [2, 1, 2, 1]\<lparr>allocs := [True, False]\<rparr>) 8 4))
     8 4 = [2, 1, 2, 1] \<and>
   fst (calculate_median
          (snd (calculate_median (caller_state 8 [2, 1, 2, 1]\<lparr>allocs := [True, False]\<rparr>) 8 4))
          8 4) = 0"
  by (simp add: caller_state_def calculate_median_def malloc_def fresh_def NULL_def memcpy_def
      qsort_def qsort_list_def compare_def block_def rd_def free_def count_of_def c_mod_def
      c_div_def sample_def fprintf_stderr_def Let_def)

text \<open>
  Claim C8, amended. A call of a calculator leaves the caller's array as it was, whether
  or not an allocation fails. \<open>calculate_mean\<close> only reads the state, so it returns no
  new one. After \<open>calculate_median\<close> the store is the store before the call (the sorted
  copy lived in a block of its own, released at the end); after \<open>calculate_mode\<close> every
  block that was allocated before the call holds what it held, the only new block being
  the result's. So the sample is the same after either call, and so is the mean of it.
  When no allocation fails, a second call of \<open>calculate_median\<close> or \<open>calculate_mode\<close>
  on the state the first one left returns the same median, the same mode values, count
  and frequency.
\<close>

theorem calculators_leave_input_unchanged:
  assumes "valid_sample s arr sz"
  shows "cells (snd (calculate_median s arr sz)) = cells s \<and>
         (\<forall>p\<in>fst ` set (cells s). block (snd (calculate_mode s arr sz)) p = block s p) \<and>
         sample (snd (calculate_median s arr sz)) arr sz = sample s arr sz \<and>
         sample (snd (calculate_mode s arr sz)) arr sz = sample s arr sz \<and>
         calculate_mean (snd (calculate_median s arr sz)) arr sz = calculate_mean s arr sz \<and>
         calculate_mean (snd (calculate_mode s arr sz)) arr sz = calculate_mean s arr sz \<and>
         (no_oom s \<longrightarrow>
            fst (calculate_median (snd (calculate_median s arr sz)) arr sz)
              = fst (calculate_median s arr sz) \<and>
            mode_values (calculate_mode (snd (calculate_mode s arr sz)) arr sz)
              = mode_values (calculate_mode s arr sz) \<and>
            count (fst (calculate_mode (snd (calculate_mode s arr sz)) arr sz))
              = count (fst (calculate_mode s arr sz)) \<and>
            frequency (fst (calculate_mode (snd (calculate_mode s arr sz)) arr sz))
              = frequency (fst (calculate_mode s arr sz)))"
proof -
  let ?s1 = "snd (calculate_median s arr sz)"
  let ?s2 = "snd (calculate_mode s arr sz)"
  have c1: "cells ?s1 = cells s"
    using assms by (rule calculate_median_unchanged)
  then have b1: "block ?s1 arr = block s arr"
    by (rule block_cells_cong)
  have b2: "block ?s2 arr = block s arr"
    using assms by (rule calculate_mode_unchanged)
  have v1: "valid_sample ?s1 arr sz" and v2: "valid_sample ?s2 arr sz"
    using assms(1) by (simp_all only: valid_sample_cong [OF b1] valid_sample_cong [OF b2])
  have sm1: "sample ?s1 arr sz = sample s arr sz" and sm2: "sample ?s2 arr sz = sample s arr sz"
    by (simp_all only: sample_cong [OF b1] sample_cong [OF b2])
  have rep: "fst (calculate_median ?s1 arr sz) = fst (calculate_median s arr sz) \<and>
            mode_values (calculate_mode ?s2 arr sz) = mode_values (calculate_mode s arr sz) \<and>
            count (fst (calculate_mode ?s2 arr sz)) = count (fst (calculate_mode s arr sz)) \<and>
            frequency (fst (calculate_mode ?s2 arr sz)) = frequency (fst (calculate_mode s arr sz))"
    if n: "no_oom s"
  proof -
    have n1: "no_oom ?s1"
      using assms n by (rule calculate_median_frame)
    have n2: "no_oom ?s2"
      using assms n by (rule calculate_mode_frame)
    have "fst (calculate_median ?s1 arr sz) = fst (calculate_median s arr sz)"
      by (simp only: calculate_median_frame(5) [OF assms n] calculate_median_frame(5) [OF v1 n1]
          sm1)
    moreover have "mode_values (calculate_mode ?s2 arr sz) = mode_values (calculate_mode s arr sz)"
      by (simp only: calculate_mode_frame(6) [OF assms n] calculate_mode_frame(6) [OF v2 n2] sm2)
    moreover have "frequency (fst (calculate_mode ?s2 arr sz))
                   = frequency (fst (calculate_mode s arr sz))"
      by (simp only: calculate_mode_frame(7) [OF assms n] calculate_mode_frame(7) [OF v2 n2] sm2)
    moreover have "count (fst (calculate_mode ?s2 arr sz)) = count (fst (calculate_mode s arr sz))"
      by (simp only: calculate_mode_frame(8) [OF assms n] calculate_mode_frame(8) [OF v2 n2]
          calculate_mode_frame(6) [OF assms n] calculate_mode_frame(6) [OF v2 n2] sm2)
    ultimately show ?thesis
      by (intro conjI) assumption+
  qed
  show ?thesis
    using calculate_mode_unchanged(1) [OF assms] c1 sm1 sm2 rep
      calculate_mean_cong [OF b1, of sz] calculate_mean_cong [OF b2, of sz]
    by (intro conjI impI) (assumption | blast)+
qed

text \<open>
  The sample \<^verbatim>\<open>{2, 1, 2, 1}\<close>, with no failure: median 1.5 and modes 1 and 2, twice; and
  with the failure of the second allocation of \<open>calculate_mode\<close>: the array is as it
  was.
\<close>

theorem calculators_leave_input_unchanged_witness:
  "valid_sample (caller_state 8 [2, 1, 2, 1]) 8 4 \<and> no_oom (caller_state 8 [2, 1, 2, 1]) \<and>
   cells (snd (calculate_median (caller_state 8 [2, 1, 2, 1]) 8 4)) = [(8, [2, 1, 2, 1])] \<and>
   block (snd (calculate_mode (caller_state 8 [2, 1, 2, 1]) 8 4)) 8 = [2, 1, 2, 1] \<and>
   fst (calculate_median (snd (calculate_median (caller_state 8 [2, 1, 2, 1]) 8 4)) 8 4) = 3 / 2 \<and>
   mode_values (calculate_mode (snd (calculate_mode (caller_state 8 [2, 1, 2, 1]) 8 4)) 8 4)
     = [1, 2]"
proof -
  have v: "valid_sample (caller_state 8 [2, 1, 2, 1]) 8 4"
    by (simp add: valid_caller_state count_of_def)
  have n: "no_oom (caller_state 8 [2, 1, 2, 1])"
    by (simp add: no_oom_def caller_state_def)
  have c: "cells (caller_state 8 [2, 1, 2, 1]) = [(8, [2, 1, 2, 1])]"
    by (simp add: caller_state_def)
  have m: "fst (calculate_median (caller_state 8 [2, 1, 2, 1]) 8 4) = 3 / 2"
    by code_simp
  have r: "mode_values (calculate_mode (caller_state 8 [2, 1, 2, 1]) 8 4) = [1, 2]"
    by code_simp
  from calculators_leave_input_unchanged [OF v] v n c m r show ?thesis
    by (simp add: block_def)
qed

section \<open>The order that compare induces\<close>

text \<open>
  Claim C10. \<open>compare a b\<close> is the 32-bit difference \<open>a - b\<close>; its sign is the
  order of the two integers exactly when their difference fits in an \<^verbatim>\<open>int\<close>. For a
  sample in which every difference of two elements fits, the sorted copy is an ascending
  permutation of the sample, and it is the copy the calculators use: on every run,
  \<open>calculate_median\<close> returns (unless its allocation fails) the median read from that
  list, and \<open>calculate_mode\<close> returns (unless one of its allocations fails) the values
  of the longest runs of that list and their length. \<^verbatim>\<open>INT_MIN\<close> and 1 violate the
  condition: the difference wraps around to \<^verbatim>\<open>INT_MAX\<close>, so \<open>compare\<close> reports
  \<^verbatim>\<open>INT_MIN\<close> as the greater one, the sorted copy of \<^verbatim>\<open>{INT_MIN, 1}\<close> is
  \<^verbatim>\<open>{1, INT_MIN}\<close>, and \<open>calculate_mode\<close> returns the values in that order.
\<close>

theorem compare_sorts_within_int_range:
  assumes "valid_sample s arr sz" and "differences_fit (sample s arr sz)"
  shows "(\<forall>a b. compare a b = a - b \<and> (compare_agrees a b \<longleftrightarrow> difference_fits a b)) \<and>
         sorted (map sint (qsort_list compare (sample s arr sz))) \<and>
         mset (qsort_list compare (sample s arr sz)) = mset (sample s arr sz) \<and>
         calculate_median s arr sz =
           (if sz = 0 then (0, s)
            else if fails (allocs s)
            then (0, fprintf_stderr (s\<lparr>allocs := tl (allocs s)\<rparr>)
                       (''Memory allocation failed'' @ [CHR 0x0A]))
            else (median_of_sorted (qsort_list compare (sample s arr sz)),
                  s\<lparr>allocs := tl (allocs s)\<rparr>)) \<and>
         calculate_mode s arr sz =
           (if sz = 0 then (\<lparr>modes = NULL, count = 0, frequency = 0\<rparr>, s)
            else if fails (allocs s)
            then (\<lparr>modes = NULL, count = 0, frequency = 0\<rparr>,
                  fprintf_stderr (s\<lparr>allocs := tl (allocs s)\<rparr>)
                    (''Memory allocation failed in calculate_mode'' @ [CHR 0x0A]))
            else if fails (tl (allocs s))
            then (\<lparr>modes = NULL, count = 0, frequency = 0\<rparr>,
                  s\<lparr>allocs := tl (tl (allocs s))\<rparr>)
            else if fails (tl (tl (allocs s)))
            then (\<lparr>modes = NULL, count = 0, frequency = 0\<rparr>,
                  s\<lparr>allocs := tl (tl (tl (allocs s)))\<rparr>)
            else
              (\<lparr>modes = Suc (Suc (fresh s)),
                count = of_nat (length (modes_of_sorted (qsort_list compare (sample s arr sz)))),
                frequency = of_nat (max_run (qsort_list compare (sample s arr sz)))\<rparr>,
               s\<lparr>cells := (Suc (Suc (fresh s)),
                           modes_of_sorted (qsort_list compare (sample s arr sz))) # cells s,
                 allocs := tl (tl (tl (allocs s)))\<rparr>)) \<and>
         \<not> difference_fits INT_MIN 1 \<and> sint INT_MIN < sint (1 :: cint) \<and>
         0 < sint (compare INT_MIN 1) \<and> qsort_list compare [INT_MIN, 1] = [1, INT_MIN] \<and>
         mode_values (calculate_mode (caller_state 8 [INT_MIN, 1]) 8 2) = [1, INT_MIN]"
proof (intro conjI)
  show "\<forall>a b. compare a b = a - b \<and> (compare_agrees a b \<longleftrightarrow> difference_fits a b)"
    by (simp add: compare_def [symmetric] compare_agrees_iff)
  show "sorted (map sint (qsort_list compare (sample s arr sz)))"
    using assms(2) by (rule sorted_qsort_list)
  show "mset (qsort_list compare (sample s arr sz)) = mset (sample s arr sz)"
    by (rule mset_qsort_list)
  show "calculate_median s arr sz =
           (if sz = 0 then (0, s)
            else if fails (allocs s)
            then (0, fprintf_stderr (s\<lparr>allocs := tl (allocs s)\<rparr>)
                       (''Memory allocation failed'' @ [CHR 0x0A]))
            else (median_of_sorted (qsort_list compare (sample s arr sz)),
                  s\<lparr>allocs := tl (allocs s)\<rparr>))"
    using assms(1) by (rule calculate_median_all)
  show "calculate_mode s arr sz =
           (if sz = 0 then (\<lparr>modes = NULL, count = 0, frequency = 0\<rparr>, s)
            else if fails (allocs s)
            then (\<lparr>modes = NULL, count = 0, frequency = 0\<rparr>,
                  fprintf_stderr (s\<lparr>allocs := tl (allocs s)\<rparr>)
                    (''Memory allocation failed in calculate_mode'' @ [CHR 0x0A]))
            else if fails (tl (allocs s))
            then (\<lparr>modes = NULL, count = 0, frequency = 0\<rparr>,
                  s\<lparr>allocs := tl (tl (allocs s))\<rparr>)
            else if fails (tl (tl (allocs s)))
            then (\<lparr>modes = NULL, count = 0, frequency = 0\<rparr>,
                  s\<lparr>allocs := tl (tl (tl (allocs s)))\<rparr>)
            else
              (\<lparr>modes = Suc (Suc (fresh s)),
                count = of_nat (length (modes_of_sorted (qsort_list compare (sample s arr sz)))),
                frequency = of_nat (max_run (qsort_list compare (sample s arr sz)))\<rparr>,
               s\<lparr>cells := (Suc (Suc (fresh s)),
                           modes_of_sorted (qsort_list compare (sample s arr sz))) # cells s,
                 allocs := tl (tl (tl (allocs s)))\<rparr>))"
    using assms(1) by (rule calculate_mode_all)
  show "\<not> difference_fits INT_MIN 1"
    by (simp add: difference_fits_def sint_INT_MIN)
  show "sint INT_MIN < sint (1 :: cint)"
    by (simp add: sint_INT_MIN)
  show "0 < sint (compare INT_MIN 1)"
    by (simp add: compare_INT_MIN_1)
  show "qsort_list compare [INT_MIN, 1] = [1, INT_MIN]"
    by (simp add: qsort_list_def compare_def INT_MIN_def)
  show "mode_values (calculate_mode (caller_state 8 [INT_MIN, 1]) 8 2) = [1, INT_MIN]"
    by code_simp
qed

text \<open>
  The sample \<^verbatim>\<open>{3, 1, 2}\<close>: the sorted copy is \<^verbatim>\<open>{1, 2, 3}\<close>, the median 2, the modes 1,
  2 and 3.
\<close>

theorem compare_sorts_within_int_range_witness:
  "valid_sample (caller_state 8 [3, 1, 2]) 8 3 \<and>
   differences_fit (sample (caller_state 8 [3, 1, 2]) 8 3) \<and>
   \<not> fails (allocs (caller_state 8 [3, 1, 2])) \<and>
   compare_agrees 3 1 \<and>
   qsort_list compare (sample (caller_state 8 [3, 1, 2]) 8 3) = [1, 2, 3] \<and>
   fst (calculate_median (caller_state 8 [3, 1, 2]) 8 3) = 2 \<and>
   mode_values (calculate_mode (caller_state 8 [3, 1, 2]) 8 3) = [1, 2, 3]"
proof -
  have v: "valid_sample (caller_state 8 [3, 1, 2]) 8 3"
    by (simp add: valid_caller_state count_of_def)
  have s: "sample (caller_state 8 [3, 1, 2]) 8 3 = [3, 1, 2]"
    by (simp add: sample_caller_state count_of_def)
  have d: "differences_fit (sample (caller_state 8 [3, 1, 2]) 8 3)"
    by (simp add: s differences_fit_def difference_fits_def)
  have a: "allocs (caller_state 8 [3, 1, 2]) = []"
    by (simp add: caller_state_def)
  have f: "difference_fits 3 1"
    by (simp add: difference_fits_def)
  have q: "qsort_list compare [3, 1, 2] = [1, 2, 3]"
    by (simp add: qsort_list_def compare_def)
  have m: "median_of_sorted [1, 2, 3] = 2"
    by (simp add: median_of_sorted_def)
  have r: "mode_values (calculate_mode (caller_state 8 [3, 1, 2]) 8 3) = [1, 2, 3]"
    by code_simp
  from compare_sorts_within_int_range [OF v d] v d f r show ?thesis
    by (simp add: s a q m fails_def)
qed

section \<open>The report\<close>

lemma printf_printf: "printf (printf s a) b = printf s (a @ b)"
  by (simp add: printf_def)

lemma printf_Nil: "printf s [] = s"
  by (simp add: printf_def)

lemma block_printf: "block (printf s t) p = block s p"
  by (simp add: block_def printf_def)

lemma rd_printf: "rd (printf s t) p i = rd s p i"
  by (simp add: rd_def block_printf)

lemma sint_minus_1:
  assumes "0 \<le> sint (sz :: cint)"
  shows "sint (sz - 1) = sint sz - 1"
proof -
  have "sint (sz - 1) = signed_take_bit 31 (sint sz - 1)"
    by (simp add: sint_word_ariths)
  moreover have "- (2 ^ 31) \<le> sint sz - 1" "sint sz - 1 < 2 ^ 31"
    using assms sint_cint_bounds(2) [of sz] by simp_all
  ultimately show ?thesis
    by (simp add: signed_take_bit_int_eq_self)
qed

lemma comma_separated_Cons:
  "comma_separated (x # xs) = fmt_d x @ (if xs = [] then [] else '', '' @ comma_separated xs)"
  by (cases xs) simp_all

lemma fold_print_cell:
  assumes "0 \<le> sint sz" and "count_of sz \<le> length (block s arr)"
  shows "fold (print_cell arr sz) [k ..< count_of sz] s =
         printf s (comma_separated (drop k (take (count_of sz) (block s arr))))"
  using assms(2)
proof (induction "count_of sz - k" arbitrary: k s)
  case 0
  then show ?case by (simp add: printf_Nil)
next
  case (Suc m)
  let ?n = "count_of sz"
  let ?ys = "take ?n (block s arr)"
  have k: "k < ?n" using Suc.hyps(2) by simp
  have len: "length ?ys = ?n" using Suc.prems by simp
  have upt: "[k ..< ?n] = k # [Suc k ..< ?n]"
    using k by (simp add: upt_rec)
  have lt: "int k < sint (sz - 1) \<longleftrightarrow> Suc k < ?n"
    using assms(1) by (simp add: sint_minus_1 count_of_def) linarith
  have dr: "drop k ?ys = block s arr ! k # drop (Suc k) ?ys"
    using k len by (metis Cons_nth_drop_Suc nth_take)
  have emp: "drop (Suc k) ?ys = [] \<longleftrightarrow> \<not> Suc k < ?n"
    using len by auto
  define s' where "s' = print_cell arr sz k s"
  have s': "s' = printf s (fmt_d (block s arr ! k) @ (if Suc k < ?n then '', '' else []))"
    by (simp add: s'_def print_cell_def Let_def lt rd_printf printf_printf printf_Nil rd_def)
  then have b: "block s' arr = block s arr"
    by (simp add: block_printf)
  have "fold (print_cell arr sz) [Suc k ..< ?n] s' =
        printf s' (comma_separated (drop (Suc k) (take ?n (block s' arr))))"
    using Suc.hyps(2) Suc.prems by (intro Suc.hyps(1)) (simp_all add: b)
  then have ih: "fold (print_cell arr sz) [Suc k ..< ?n] s' =
        printf s' (comma_separated (drop (Suc k) ?ys))"
    by (simp only: b)
  have "fold (print_cell arr sz) [k ..< ?n] s = fold (print_cell arr sz) [Suc k ..< ?n] s'"
    by (simp only: upt s'_def fold_simps comp_apply)
  also have "\<dots> = printf s' (comma_separated (drop (Suc k) ?ys))"
    by (rule ih)
  also have "\<dots> = printf s (comma_separated (drop k ?ys))"
    using emp by (simp add: s' dr comma_separated_Cons printf_printf)
  finally show ?case .
qed

lemma print_array_eq:
  assumes "valid_sample s arr sz"
  shows "print_array s arr sz = printf s (''['' @ comma_separated (sample s arr sz) @ '']'')"
proof -
  have "0 \<le> sint sz" and "count_of sz \<le> length (block (printf s ''['') arr)"
    using assms by (simp_all add: valid_sample_def block_printf)
  then have "fold (print_cell arr sz) [0 ..< count_of sz] (printf s ''['')
        = printf (printf s ''['') (comma_separated (drop 0 (take (count_of sz) (block (printf s ''['') arr))))"
    by (rule fold_print_cell)
  then show ?thesis
    by (simp add: print_array_def Let_def sample_def block_printf printf_printf)
qed

lemma valid_sample_printf: "valid_sample (printf s t) arr sz = valid_sample s arr sz"
  by (simp add: valid_sample_def block_printf)

lemma sample_printf: "sample (printf s t) arr sz = sample s arr sz"
  by (simp add: sample_def block_printf)

lemma calculate_mean_printf: "calculate_mean (printf s t) arr sz = calculate_mean s arr sz"
  by (rule calculate_mean_cong) (rule block_printf)

lemma stdout_printf: "stdout (printf s t) = stdout s @ t"
  by (simp add: printf_def)

lemma stdout_free_mode_result: "stdout (snd (free_mode_result (r, s))) = stdout s"
  by (simp add: free_mode_result_def free_def Let_def)

text \<open>Two states with the same store and the same allocations to come.\<close>

lemma calculate_median_same_store:
  assumes "cells s' = cells s" and "allocs s' = allocs s" and "valid_sample s arr sz"
  shows "fst (calculate_median s' arr sz) = fst (calculate_median s arr sz)"
    and "cells (snd (calculate_median s' arr sz)) = cells s"
    and "allocs (snd (calculate_median s' arr sz)) = allocs (snd (calculate_median s arr sz))"
    and "stdout (snd (calculate_median s' arr sz)) = stdout s'"
proof -
  have b: "block s' arr = block s arr"
    using assms(1) by (rule block_cells_cong)
  have v: "valid_sample s' arr sz"
    using assms(3) by (simp only: valid_sample_cong [OF b])
  have sm: "sample s' arr sz = sample s arr sz"
    by (rule sample_cong [OF b])
  show "fst (calculate_median s' arr sz) = fst (calculate_median s arr sz)"
    by (simp add: calculate_median_all [OF v] calculate_median_all [OF assms(3)] sm assms(2))
  show "cells (snd (calculate_median s' arr sz)) = cells s"
    using calculate_median_unchanged(1) [OF v] by (simp only: assms(1))
  show "allocs (snd (calculate_median s' arr sz)) = allocs (snd (calculate_median s arr sz))"
    by (simp add: calculate_median_all [OF v] calculate_median_all [OF assms(3)] assms(2)
        fprintf_stderr_def)
  show "stdout (snd (calculate_median s' arr sz)) = stdout s'"
    using v by (rule calculate_median_unchanged)
qed

lemma calculate_mode_same_store:
  assumes "cells s' = cells s" and "allocs s' = allocs s" and "valid_sample s arr sz"
  shows "fst (calculate_mode s' arr sz) = fst (calculate_mode s arr sz)"
    and "cells (snd (calculate_mode s' arr sz)) = cells (snd (calculate_mode s arr sz))"
    and "stdout (snd (calculate_mode s' arr sz)) = stdout s'"
proof -
  have b: "block s' arr = block s arr"
    using assms(1) by (rule block_cells_cong)
  have v: "valid_sample s' arr sz"
    using assms(3) by (simp only: valid_sample_cong [OF b])
  have sm: "sample s' arr sz = sample s arr sz"
    by (rule sample_cong [OF b])
  have f: "fresh s' = fresh s"
    by (simp add: fresh_def assms(1))
  show "fst (calculate_mode s' arr sz) = fst (calculate_mode s arr sz)"
    by (simp add: calculate_mode_all [OF v] calculate_mode_all [OF assms(3)] sm f assms(2))
  show "cells (snd (calculate_mode s' arr sz)) = cells (snd (calculate_mode s arr sz))"
    by (simp add: calculate_mode_all [OF v] calculate_mode_all [OF assms(3)] sm f assms(1,2)
        fprintf_stderr_def)
  show "stdout (snd (calculate_mode s' arr sz)) = stdout s'"
    using v by (rule calculate_mode_unchanged)
qed

lemma calculate_mode_result:
  assumes "valid_sample s arr sz"
  shows "count (fst (calculate_mode s arr sz))
           = of_nat (length (mode_values (calculate_mode s arr sz)))"
    and "length (mode_values (calculate_mode s arr sz)) < 2 ^ 31"
    and "mode_values (calculate_mode s arr sz)
           = take (length (mode_values (calculate_mode s arr sz)))
               (block (snd (calculate_mode s arr sz)) (modes (fst (calculate_mode s arr sz))))"
    and "length (mode_values (calculate_mode s arr sz))
           \<le> length (block (snd (calculate_mode s arr sz)) (modes (fst (calculate_mode s arr sz))))"
proof -
  let ?M = "modes_of_sorted (qsort_list compare (sample s arr sz))"
  have lenM: "length ?M < 2 ^ 31"
  proof -
    have "length ?M \<le> length (sample s arr sz)"
      using length_modes_of_sorted [of "qsort_list compare (sample s arr sz)"]
      by (simp add: length_qsort_list)
    then show ?thesis
      using count_of_less [of sz] by (simp add: length_sample [OF assms(1)])
  qed
  have c0: "count_of (0 :: cint) = 0"
    by (simp add: count_of_def)
  have mv: "mode_values (calculate_mode s arr sz) =
        (if sz = 0 \<or> fails (allocs s) \<or> fails (tl (allocs s)) \<or> fails (tl (tl (allocs s)))
         then [] else ?M)"
    using lenM
    by (simp add: calculate_mode_all [OF assms] mode_values_def c0 count_of_of_nat block_def)
  show "count (fst (calculate_mode s arr sz))
           = of_nat (length (mode_values (calculate_mode s arr sz)))"
    unfolding mv by (simp add: calculate_mode_all [OF assms])
  show "length (mode_values (calculate_mode s arr sz)) < 2 ^ 31"
    unfolding mv using lenM by simp
  show "mode_values (calculate_mode s arr sz)
           = take (length (mode_values (calculate_mode s arr sz)))
               (block (snd (calculate_mode s arr sz)) (modes (fst (calculate_mode s arr sz))))"
    unfolding mv by (simp add: calculate_mode_all [OF assms] block_def)
  show "length (mode_values (calculate_mode s arr sz))
           \<le> length (block (snd (calculate_mode s arr sz)) (modes (fst (calculate_mode s arr sz))))"
    unfolding mv by (simp add: calculate_mode_all [OF assms] block_def)
qed

lemma sint_eq_1_iff: "sint (c :: cint) = 1 \<longleftrightarrow> c = 1"
proof
  assume "sint c = 1"
  then have "sint c = sint (1 :: cint)" by simp
  then show "c = 1" by (simp only: signed_word_eqI)
qed simp

lemma mode_values_cong:
  "block s' (modes r) = block s (modes r) \<Longrightarrow> mode_values (r, s') = mode_values (r, s)"
  by (simp add: mode_values_def)

lemma mode_line:
  assumes "0 \<le> sint (count r)" and "count_of (count r) \<le> length (block s (modes r))"
  shows "stdout
           (let s = printf s ''Mode: '';
                s = (if count r = 1
                     then printf s (fmt_d (rd s (modes r) 0) @ '' (frequency: ''
                                    @ fmt_d (frequency r) @ '')'' @ [CHR 0x0A])
                     else
                       let s = printf s ''['';
                           s = fold (print_cell (modes r) (count r)) [0 ..< count_of (count r)] s
                       in printf s (''] (frequency: '' @ fmt_d (frequency r)
                                    @ '' each)'' @ [CHR 0x0A]));
                (mode_result, s) = free_mode_result (r, s)
            in printf s [CHR 0x0A])
         = stdout s @ ''Mode: '' @
           (case mode_values (r, s) of
              [v] \<Rightarrow> fmt_d v @ '' (frequency: '' @ fmt_d (frequency r) @ '')''
            | vs \<Rightarrow> ''['' @ comma_separated vs @ ''] (frequency: '' @ fmt_d (frequency r)
                       @ '' each)'')
           @ [CHR 0x0A, CHR 0x0A]"
proof -
  define vs where "vs = mode_values (r, s)"
  have vs: "vs = take (count_of (count r)) (block s (modes r))"
    by (simp add: vs_def mode_values_def)
  have len: "length vs = count_of (count r)"
    using assms(2) by (simp add: vs)
  have one: "count r = 1 \<longleftrightarrow> length vs = 1"
    using assms(1) sint_eq_1_iff [of "count r"] by (auto simp: len count_of_def)
  have pr: "fold (print_cell (modes r) (count r)) [0 ..< count_of (count r)]
          (printf (printf s t) t')
        = printf (printf (printf s t) t') (comma_separated vs)" for t t'
    using fold_print_cell [of "count r" "printf (printf s t) t'" "modes r" 0] assms
    by (simp add: block_printf vs)
  have fr: "stdout (case free_mode_result (r, u) of (mode_result, s) \<Rightarrow> printf s [CHR 0x0A])
        = stdout u @ [CHR 0x0A]" for u
    using stdout_free_mode_result [of r u]
    by (cases "free_mode_result (r, u)") (simp add: stdout_printf)
  show ?thesis
  proof (cases "length vs = 1")
    case True
    then obtain v where v: "vs = [v]"
      by (cases vs) simp_all
    have "0 < count_of (count r)"
      using True len by simp
    then have "block s (modes r) ! 0 = v"
      using v vs by (metis nth_Cons_0 nth_take)
    then show ?thesis
      using True one v
      by (simp add: Let_def fr stdout_printf rd_printf rd_def block_printf vs_def [symmetric])
  next
    case False
    then consider "vs = []" | v w ws where "vs = v # w # ws"
      by (cases vs; cases "tl vs") auto
    then show ?thesis
    proof cases
      case 1
      with False one show ?thesis
        by (simp add: Let_def fr stdout_printf pr vs_def [symmetric])
    next
      case 2
      with False one show ?thesis
        by (simp add: Let_def fr stdout_printf pr vs_def [symmetric])
    qed
  qed
qed

lemma cells_printf: "cells (printf s t) = cells s"
  by (simp add: printf_def)

lemma allocs_printf: "allocs (printf s t) = allocs s"
  by (simp add: printf_def)

lemma valid_sample_cells:
  "cells s' = cells s \<Longrightarrow> valid_sample s arr sz \<Longrightarrow> valid_sample s' arr sz"
  by (simp add: valid_sample_def block_def)

lemma mode_values_same:
  assumes "fst R' = fst R" and "cells (snd R') = cells (snd R)"
  shows "mode_values R' = mode_values R"
  using assms by (cases R; cases R') (simp add: mode_values_def block_def)

lemma hundredths_nearest: "\<bar>real_of_int (hundredths x) - \<bar>x\<bar> * 100\<bar> \<le> 1 / 2"
proof -
  define y where "y = \<bar>x\<bar> * 100"
  have "of_int \<lfloor>y\<rfloor> \<le> y" "y < of_int \<lfloor>y\<rfloor> + 1"
    by linarith+
  then show ?thesis
    unfolding hundredths_def Let_def y_def [symmetric] by auto
qed

lemma hundredths_nonneg: "0 \<le> hundredths x"
proof -
  have "0 \<le> \<lfloor>\<bar>x\<bar> * 100\<rfloor>"
    by simp
  then show ?thesis
    unfolding hundredths_def Let_def by auto
qed

lemma report_stdout:
  assumes v: "valid_sample s arr sz"
  shows "stdout (print_statistics s arr sz) =
         (if sz = 0
          then stdout s @ ''Array: []'' @ [CHR 0x0A]
               @ ''Cannot calculate statistics for empty array.'' @ [CHR 0x0A]
          else
            let (median, s1) = calculate_median s arr sz;
                R = calculate_mode s1 arr sz
            in stdout s @ ''Array: ['' @ comma_separated (sample s arr sz) @ '']'' @ [CHR 0x0A]
               @ ''Mean: '' @ fmt_2f (calculate_mean s arr sz) @ [CHR 0x0A]
               @ ''Median: '' @ fmt_2f median @ [CHR 0x0A]
               @ ''Mode: ''
               @ (case mode_values R of
                    [v] \<Rightarrow> fmt_d v @ '' (frequency: '' @ fmt_d (frequency (fst R)) @ '')''
                  | vs \<Rightarrow> ''['' @ comma_separated vs @ ''] (frequency: ''
                            @ fmt_d (frequency (fst R)) @ '' each)'')
               @ [CHR 0x0A, CHR 0x0A])"
proof -
  define T where "T = ''Array: ['' @ comma_separated (sample s arr sz) @ '']'' @ [CHR 0x0A]"
  define s2 where "s2 = printf s T"
  have v0: "valid_sample (printf s ''Array: '') arr sz"
    using v by (simp add: valid_sample_printf)
  have head: "printf (print_array (printf s ''Array: '') arr sz) [CHR 0x0A] = s2"
    by (simp add: print_array_eq [OF v0] sample_printf printf_printf s2_def T_def)
  show ?thesis
  proof (cases "sz = 0")
    case True
    have e: "sample s arr 0 = []"
      by (simp add: sample_def count_of_def)
    have "print_statistics s arr sz
          = printf s2 (''Cannot calculate statistics for empty array.'' @ [CHR 0x0A])"
      unfolding print_statistics_def Let_def head using True by simp
    then show ?thesis
      using True by (simp add: s2_def T_def stdout_printf e)
  next
    case False
    define mean where "mean = calculate_mean s arr sz"
    define s3 where "s3 = printf s2 (''Mean: '' @ fmt_2f mean @ [CHR 0x0A])"
    define median where "median = fst (calculate_median s arr sz)"
    define sm where "sm = snd (calculate_median s arr sz)"
    define s4 where "s4 = snd (calculate_median s3 arr sz)"
    define s5 where "s5 = printf s4 (''Median: '' @ fmt_2f median @ [CHR 0x0A])"
    define R where "R = calculate_mode sm arr sz"
    define r where "r = fst (calculate_mode s5 arr sz)"
    define s6 where "s6 = snd (calculate_mode s5 arr sz)"
    have mean: "calculate_mean s2 arr sz = mean"
      by (simp add: s2_def calculate_mean_printf mean_def)
    have c3: "cells s3 = cells s" and a3: "allocs s3 = allocs s"
      by (simp_all add: s3_def s2_def cells_printf allocs_printf)
    have med: "calculate_median s3 arr sz = (median, s4)"
      using calculate_median_same_store(1) [OF c3 a3 v]
      by (simp add: median_def s4_def prod_eq_iff)
    have c4: "cells s4 = cells s" and a4: "allocs s4 = allocs sm" and o4: "stdout s4 = stdout s3"
      using calculate_median_same_store(2-4) [OF c3 a3 v]
      by (simp_all add: s4_def sm_def)
    have cm: "cells sm = cells s"
      using calculate_median_unchanged(1) [OF v] by (simp add: sm_def)
    have vm: "valid_sample sm arr sz"
      using cm v by (rule valid_sample_cells)
    have c5: "cells s5 = cells sm" and a5: "allocs s5 = allocs sm"
      by (simp_all add: s5_def cells_printf allocs_printf c4 a4 cm)
    have v5: "valid_sample s5 arr sz"
      using c5 vm by (rule valid_sample_cells)
    have mode: "calculate_mode s5 arr sz = (r, s6)"
      by (simp add: r_def s6_def)
    have fr: "r = fst R" and c6: "cells s6 = cells (snd R)" and o6: "stdout s6 = stdout s5"
      using calculate_mode_same_store [OF c5 a5 vm]
      by (simp_all add: r_def s6_def R_def)
    have mv: "mode_values (r, s6) = mode_values R"
      by (rule mode_values_same) (simp_all add: fr c6)
    have len: "length (mode_values (r, s6)) < 2 ^ 31"
      and cnt: "count r = of_nat (length (mode_values (r, s6)))"
      and fit: "length (mode_values (r, s6)) \<le> length (block s6 (modes r))"
      using calculate_mode_result(1,2,4) [OF v5] by (simp_all add: mode)
    have nn: "0 \<le> sint (count r)"
      using len by (simp add: cnt sint_of_nat_cint)
    have le: "count_of (count r) \<le> length (block s6 (modes r))"
      using fit len by (simp add: cnt count_of_of_nat)
    have out5: "stdout s5 = stdout s @ T @ ''Mean: '' @ fmt_2f mean @ [CHR 0x0A]
                  @ ''Median: '' @ fmt_2f median @ [CHR 0x0A]"
      by (simp add: s5_def stdout_printf o4 s3_def s2_def)
    have "stdout (print_statistics s arr sz) =
          stdout
           (let s = printf s6 ''Mode: '';
                s = (if count r = 1
                     then printf s (fmt_d (rd s (modes r) 0) @ '' (frequency: ''
                                    @ fmt_d (frequency r) @ '')'' @ [CHR 0x0A])
                     else
                       let s = printf s ''['';
                           s = fold (print_cell (modes r) (count r)) [0 ..< count_of (count r)] s
                       in printf s (''] (frequency: '' @ fmt_d (frequency r)
                                    @ '' each)'' @ [CHR 0x0A]));
                (mode_result, s) = free_mode_result (r, s)
            in printf s [CHR 0x0A])"
      using False
      by (simp only: print_statistics_def Let_def head if_False mean s3_def [symmetric] med
          prod.case s5_def [symmetric] mode)
    also have "\<dots> = stdout s6 @ ''Mode: '' @
           (case mode_values (r, s6) of
              [v] \<Rightarrow> fmt_d v @ '' (frequency: '' @ fmt_d (frequency r) @ '')''
            | vs \<Rightarrow> ''['' @ comma_separated vs @ ''] (frequency: '' @ fmt_d (frequency r)
                       @ '' each)'')
           @ [CHR 0x0A, CHR 0x0A]"
      using nn le by (rule mode_line)
    finally have "stdout (print_statistics s arr sz) =
          stdout s @ T @ ''Mean: '' @ fmt_2f mean @ [CHR 0x0A]
          @ ''Median: '' @ fmt_2f median @ [CHR 0x0A] @ ''Mode: '' @
           (case mode_values R of
              [v] \<Rightarrow> fmt_d v @ '' (frequency: '' @ fmt_d (frequency (fst R)) @ '')''
            | vs \<Rightarrow> ''['' @ comma_separated vs @ ''] (frequency: ''
                      @ fmt_d (frequency (fst R)) @ '' each)'')
           @ [CHR 0x0A, CHR 0x0A]"
      by (simp only: o6 out5 mv fr [symmetric] append_assoc)
    then show ?thesis
      unfolding T_def mean_def median_def R_def sm_def split_beta Let_def
      using False by simp
  qed
qed

text \<open>
  Claim C9. The report of \<open>print_statistics\<close>, for every sample and every outcome of the
  allocations: after what was printed before, the line \<^verbatim>\<open>Array: [...]\<close> with the elements
  separated by a comma and a space. For the empty sample the array is \<^verbatim>\<open>[]\<close> and one more
  line follows, \<^verbatim>\<open>Cannot calculate statistics for empty array.\<close>, and nothing else: no
  line \<^verbatim>\<open>Mean:\<close>, \<^verbatim>\<open>Median:\<close> or \<^verbatim>\<open>Mode:\<close>. For a non-empty sample the lines
  \<^verbatim>\<open>Mean: \<close> and \<^verbatim>\<open>Median: \<close> follow, with the values that \<open>calculate_mean\<close> and
  \<open>calculate_median\<close> return in the conversion \<^verbatim>\<open>%.2f\<close>, then the line \<^verbatim>\<open>Mode: \<close> of the
  result of \<open>calculate_mode\<close> (called after \<open>calculate_median\<close>): a single value is
  printed bare, as \<^verbatim>\<open>v (frequency: f)\<close>; any other number of values as the bracketed
  list \<^verbatim>\<open>[v, w, ...] (frequency: f each)\<close>; then an empty line. The number that \<^verbatim>\<open>%.2f\<close>
  prints is a whole number of hundredths, at most half a hundredth from the value.
\<close>

theorem report_layout:
  assumes "valid_sample s arr sz"
  shows "stdout (print_statistics s arr sz) =
         (if sz = 0
          then stdout s @ ''Array: []'' @ [CHR 0x0A]
               @ ''Cannot calculate statistics for empty array.'' @ [CHR 0x0A]
          else
            let (median, s1) = calculate_median s arr sz;
                R = calculate_mode s1 arr sz
            in stdout s @ ''Array: ['' @ comma_separated (sample s arr sz) @ '']'' @ [CHR 0x0A]
               @ ''Mean: '' @ fmt_2f (calculate_mean s arr sz) @ [CHR 0x0A]
               @ ''Median: '' @ fmt_2f median @ [CHR 0x0A]
               @ ''Mode: ''
               @ (case mode_values R of
                    [v] \<Rightarrow> fmt_d v @ '' (frequency: '' @ fmt_d (frequency (fst R)) @ '')''
                  | vs \<Rightarrow> ''['' @ comma_separated vs @ ''] (frequency: ''
                            @ fmt_d (frequency (fst R)) @ '' each)'')
               @ [CHR 0x0A, CHR 0x0A]) \<and>
         (\<forall>x. \<bar>real_of_int (hundredths x) - \<bar>x\<bar> * 100\<bar> \<le> 1 / 2)"
  using report_stdout [OF assms] hundredths_nearest by simp

text \<open>Ties go to the even hundredth; the sign is printed.\<close>

lemma fmt_2f_tie: "fmt_2f (1 / 8) = ''0.12''" "fmt_2f (3 / 8) = ''0.38''" "fmt_2f (- 5 / 2) = ''-2.50''"
  by (simp_all add: fmt_2f_def hundredths_def Let_def)

text \<open>The report of the first array of \<^verbatim>\<open>main\<close>, \<^verbatim>\<open>{1, 2, 3, 4, 5, 5, 5}\<close>.\<close>

theorem report_layout_witness:
  "valid_sample (caller_state 8 [1, 2, 3, 4, 5, 5, 5]) 8 7 \<and>
   stdout (print_statistics (caller_state 8 [1, 2, 3, 4, 5, 5, 5]) 8 7) =
     ''Array: [1, 2, 3, 4, 5, 5, 5]'' @ [CHR 0x0A] @
     ''Mean: 3.57'' @ [CHR 0x0A] @
     ''Median: 4.00'' @ [CHR 0x0A] @
     ''Mode: 5 (frequency: 3)'' @ [CHR 0x0A, CHR 0x0A]"
proof -
  define cs where "cs = caller_state 8 [1, 2, 3, 4, 5, 5, 5]"
  have v: "valid_sample cs 8 7"
    by (simp add: cs_def valid_caller_state count_of_def)
  have s: "sample cs 8 7 = [1, 2, 3, 4, 5, 5, 5]"
    by (simp add: cs_def sample_caller_state count_of_def)
  have o: "stdout cs = []"
    by (simp add: cs_def caller_state_def)
  have m: "calculate_mean cs 8 7 = 8042142191733029 / 2251799813685248"
    by (simp add: calculate_mean_eq [OF v] s double_of_long_def double_of_quotient_def
        bit_length.simps round_half_even_def)
  have mean: "fmt_2f (calculate_mean cs 8 7) = ''3.57''"
    unfolding m by (simp add: fmt_2f_def hundredths_def Let_def)
  have q: "qsort_list compare [1, 2, 3, 4, 5, 5, 5] = [1, 2, 3, 4, 5, 5, 5]"
    by (simp add: qsort_list_def compare_def)
  have md: "calculate_median cs 8 7 = (4, cs)"
    by (simp add: calculate_median_all [OF v] s q median_of_sorted_def)
       (simp add: cs_def caller_state_def fails_def c_mod_def c_div_def count_of_def)
  have median: "fmt_2f 4 = ''4.00''"
    by (simp add: fmt_2f_def hundredths_def Let_def)
  have mv: "mode_values (calculate_mode cs 8 7) = [5]"
    unfolding cs_def by code_simp
  have fq: "frequency (fst (calculate_mode cs 8 7)) = 3"
    unfolding cs_def by code_simp
  have d: "fmt_d 1 = ''1''" "fmt_d 2 = ''2''" "fmt_d 3 = ''3''" "fmt_d 4 = ''4''"
    "fmt_d 5 = ''5''"
    by (simp_all add: fmt_d_def)
  from report_layout [OF v] v show ?thesis
    unfolding cs_def [symmetric]
    by (simp add: s o mean md median mv fq d)
qed

end
